theory Spec2Isabelle
  imports
    Complex_Main
    "HOL-Library.Multiset"
    "HOL-Library.Char_ord"
    "HOL-Library.List_Lexorder"
    "HOL-Library.Product_Lexorder"
begin

section \<open>Data model of the voting coordinator (src/server.py)\<close>

text \<open>
  A voter record of \<open>voters_db\<close>: the dictionary
  \<open>{"id": .., "name": .., "has_voted": .., "vote": ..}\<close>. Python's \<open>None\<close> in the
  \<open>vote\<close> field is \<open>None\<close> of the option type.
\<close>

record voter =
  v_id :: int
  v_name :: string
  has_voted :: bool
  vote :: "string option"

text \<open>
  An entry of \<open>active_sessions\<close>: \<open>{"id": .., "name": .., "login_time": ..}\<close>.
  Wall-clock readings (\<open>time.time()\<close>, the client's click time, the deadline) are
  modelled as reals.
\<close>

record session =
  s_id :: int
  s_name :: string
  login_time :: real

text \<open>
  The tuple \<open>(session_id, candidate, timestamp, click_time)\<close> built by \<open>Vote\<close>, and the
  heap entry \<open>(timestamp, voter_id, counter, vote_request)\<close>. Python compares tuples
  lexicographically, which is the order of nested pairs under the lexicographic product order.
\<close>

type_synonym vote_request = "string \<times> string \<times> int \<times> real"

type_synonym entry = "int \<times> int \<times> int \<times> vote_request"

text \<open>
  The messages handed to \<open>_add_notification\<close>, kept structured instead of formatted;
  the wall-clock stamp of a notification is left out.
\<close>

datatype notification =
    NDropped string
  | NVoted string string
  | NRegistered string int
  | NLoggedIn string
  | NQueued nat
  | NDeadline real
  | NStarted
  | NStopped

text \<open>The operation and payload passed to \<open>_replicate_to_replicas\<close>.\<close>

datatype replication_record =
    RVote int string int
  | RRegister voter
  | RSetTimer real
  | RStartVote
  | RStopVote

text \<open>
  What one call \<open>replica.ReplicateUpdate(operation, data)\<close> does: it returns a result
  whose truth the caller tests, or the transport raises.
\<close>

datatype rpc_outcome = Returned bool | Raised

text \<open>
  The environment of one replication call: the outcome of the \<open>k\<close>-th delivery attempt,
  made to port \<open>p\<close>, for the given record.
\<close>

type_synonym network = "replication_record \<Rightarrow> nat \<Rightarrow> int \<Rightarrow> rpc_outcome"

text \<open>The fields of \<open>VotingServer\<close> that the RPC methods and the queue processor use.\<close>

record server =
  replica_ports :: "int list"
  lamport_clock :: int
  voters_db :: "voter list"
  candidates :: "string list"
  voting_active :: bool
  voting_deadline :: "real option"
  results_published :: bool
  max_concurrent_votes :: int
  active_votes :: int
  vote_queue :: "entry list"
  vote_counter :: int
  in_progress_votes :: "int set"
  active_sessions :: "string \<rightharpoonup> session"
  notifications :: "notification list"

definition mk_voter :: "int \<Rightarrow> string \<Rightarrow> voter" where
  "mk_voter i n = \<lparr>v_id = i, v_name = n, has_voted = False, vote = None\<rparr>"

definition initial_voters :: "voter list" where
  "initial_voters =
    [mk_voter 1 ''Alice'', mk_voter 2 ''Bob'', mk_voter 3 ''Charlie'', mk_voter 4 ''Diana'',
     mk_voter 5 ''Eve'', mk_voter 6 ''Frank'', mk_voter 7 ''Grace'', mk_voter 8 ''Henry'',
     mk_voter 9 ''Ivy'', mk_voter 10 ''Jack'']"

definition initial_candidates :: "string list" where
  "initial_candidates =
    [''Candidate A'', ''Candidate B'', ''Candidate C'', ''Candidate D'', ''Candidate E'',
     ''Candidate F'', ''Candidate G'', ''Candidate H'', ''Candidate I'', ''Candidate J'']"

text \<open>\<open>VotingServer.__init__\<close>; \<open>main\<close> uses the default ports \<open>[8001, 8002]\<close>.\<close>

definition init_server :: "int list \<Rightarrow> server" where
  "init_server ports =
    \<lparr>replica_ports = ports, lamport_clock = 0, voters_db = initial_voters,
     candidates = initial_candidates, voting_active = False, voting_deadline = None,
     results_published = False, max_concurrent_votes = 5, active_votes = 0,
     vote_queue = [], vote_counter = 0, in_progress_votes = {},
     active_sessions = Map.empty, notifications = []\<rparr>"

section \<open>Logical clock\<close>

text \<open>
  \<open>_increment_lamport_clock\<close> and \<open>_update_lamport_clock\<close>: each runs under
  \<open>clock_lock\<close>, so a call is one atomic step that returns the new counter.
\<close>

definition increment_lamport_clock :: "server \<Rightarrow> int \<times> server" where
  "increment_lamport_clock s =
    (let s' = s\<lparr>lamport_clock := lamport_clock s + 1\<rparr> in (lamport_clock s', s'))"

definition update_lamport_clock :: "int \<Rightarrow> server \<Rightarrow> int \<times> server" where
  "update_lamport_clock received_clock s =
    (let s' = s\<lparr>lamport_clock := max (lamport_clock s) received_clock + 1\<rparr>
     in (lamport_clock s', s'))"

text \<open>A serialized sequence of clock calls and the values it returns, in order.\<close>

datatype clock_call = Tick | Observe int

fun clock_call_run :: "clock_call \<Rightarrow> server \<Rightarrow> int \<times> server" where
  "clock_call_run Tick s = increment_lamport_clock s"
| "clock_call_run (Observe t) s = update_lamport_clock t s"

fun clock_returns :: "clock_call list \<Rightarrow> server \<Rightarrow> int list" where
  "clock_returns [] s = []"
| "clock_returns (c # cs) s =
    (case clock_call_run c s of (r, s') \<Rightarrow> r # clock_returns cs s')"

section \<open>Notification log\<close>

text \<open>
  \<open>_add_notification\<close>: \<open>notifications\<close> is a \<open>deque(maxlen=100)\<close>, so appending to a
  full log discards its oldest element.
\<close>

definition add_notification :: "notification \<Rightarrow> server \<Rightarrow> server" where
  "add_notification m s =
    s\<lparr>notifications :=
        (let ns = notifications s @ [m] in if 100 < length ns then tl ns else ns)\<rparr>"

section \<open>Replicator\<close>

text \<open>
  The loop of \<open>_replicate_to_replicas\<close>. \<open>call k p\<close> is the outcome of the \<open>k\<close>-th
  attempt, made to port \<open>p\<close>; an exception is caught by the \<open>except\<close> clause inside the
  loop body, so the loop goes on to the next port. The ports attempted are logged beside
  the counter \<open>successful_replicas\<close>.
\<close>

fun replicate_loop ::
  "(nat \<Rightarrow> int \<Rightarrow> rpc_outcome) \<Rightarrow> int list \<Rightarrow> nat \<Rightarrow> int list \<Rightarrow> int \<Rightarrow> int list \<times> int"
where
  "replicate_loop call [] k attempted successful_replicas = (attempted, successful_replicas)"
| "replicate_loop call (replica_port # rest) k attempted successful_replicas =
    (case call k replica_port of
       Returned result \<Rightarrow>
         replicate_loop call rest (Suc k) (attempted @ [replica_port])
           (if result then successful_replicas + 1 else successful_replicas)
     | Raised \<Rightarrow>
         replicate_loop call rest (Suc k) (attempted @ [replica_port]) successful_replicas)"

definition replicate_attempts :: "network \<Rightarrow> replication_record \<Rightarrow> int list \<Rightarrow> int list" where
  "replicate_attempts net operation ports = fst (replicate_loop (net operation) ports 0 [] 0)"

definition replicate_to_replicas :: "network \<Rightarrow> replication_record \<Rightarrow> int list \<Rightarrow> bool" where
  "replicate_to_replicas net operation ports =
    (1 \<le> snd (replicate_loop (net operation) ports 0 [] 0))"

text \<open>
  The client side of a call. \<open>_replicate_to_replicas\<close> builds
  \<open>ServerProxy(f"http://localhost:{replica_port}")\<close> without \<open>allow_none\<close>, so the
  proxy refuses to marshal a payload that holds \<open>None\<close>: the call raises \<open>TypeError\<close>
  inside the \<open>try\<close>, before anything is sent, on every port. Of the payloads the server
  builds, the voter dictionary of a registration is the one with a field that can be
  \<open>None\<close>. Every other way a delivery can fail, an integer too large for the wire format
  included, is an outcome \<open>Raised\<close> of the network.
\<close>

definition marshals :: "replication_record \<Rightarrow> bool" where
  "marshals operation = (case operation of RRegister v \<Rightarrow> vote v \<noteq> None | _ \<Rightarrow> True)"

definition marshalled :: "network \<Rightarrow> network" where
  "marshalled net operation k p = (if marshals operation then net operation k p else Raised)"

section \<open>The priority queue: Python's \<open>heapq\<close> on a list\<close>

text \<open>
  \<open>vote_queue\<close> is a Python list handled only by \<open>heapq.heappush\<close> and
  \<open>heapq.heappop\<close>. Both are modelled as the library implements them: an array-based
  binary heap with the loops \<open>_siftdown\<close> and \<open>_siftup\<close>, which compare items with
  \<open><\<close> only. Every index read below is in range whenever \<open>pos < len(heap)\<close>, which
  holds at both call sites.
\<close>

function siftdown_loop :: "'a::linorder list \<Rightarrow> nat \<Rightarrow> nat \<Rightarrow> 'a \<Rightarrow> 'a list" where
  "siftdown_loop heap startpos pos newitem =
    (if pos > startpos then
       (let parentpos = (pos - 1) div 2; parent = heap ! parentpos in
        if newitem < parent then siftdown_loop (heap[pos := parent]) startpos parentpos newitem
        else heap[pos := newitem])
     else heap[pos := newitem])"
  by pat_completeness auto
termination
  by (relation "measure (\<lambda>(heap, startpos, pos, newitem). pos)") auto

definition siftdown :: "'a::linorder list \<Rightarrow> nat \<Rightarrow> nat \<Rightarrow> 'a list" where
  "siftdown heap startpos pos = siftdown_loop heap startpos pos (heap ! pos)"

function siftup_loop :: "'a::linorder list \<Rightarrow> nat \<Rightarrow> nat \<Rightarrow> 'a list \<times> nat" where
  "siftup_loop heap endpos pos =
    (let childpos = 2 * pos + 1 in
     if childpos < endpos then
       (let rightpos = childpos + 1;
            childpos = (if rightpos < endpos \<and> \<not> heap ! childpos < heap ! rightpos
                        then rightpos else childpos)
        in siftup_loop (heap[pos := heap ! childpos]) endpos childpos)
     else (heap, pos))"
  by pat_completeness auto
termination
  by (relation "measure (\<lambda>(heap, endpos, pos). endpos - pos)") (auto simp: Let_def)

definition siftup :: "'a::linorder list \<Rightarrow> nat \<Rightarrow> 'a list" where
  "siftup heap pos =
    (let endpos = length heap;
         startpos = pos;
         newitem = heap ! pos
     in case siftup_loop heap endpos pos of
          (heap', pos') \<Rightarrow> siftdown (heap'[pos' := newitem]) startpos pos')"

definition heappush :: "'a::linorder list \<Rightarrow> 'a \<Rightarrow> 'a list" where
  "heappush heap item = siftdown (heap @ [item]) 0 (length heap)"

text \<open>\<open>heappop\<close> of an empty list raises \<open>IndexError\<close>: the result \<open>None\<close>.\<close>

definition heappop :: "'a::linorder list \<Rightarrow> ('a \<times> 'a list) option" where
  "heappop heap =
    (if heap = [] then None
     else
       (let lastelt = last heap; heap1 = butlast heap in
        if heap1 \<noteq> [] then
          (let returnitem = heap1 ! 0 in Some (returnitem, siftup (heap1[0 := lastelt]) 0))
        else Some (lastelt, heap1)))"

declare siftdown_loop.simps [simp del] siftup_loop.simps [simp del]

text \<open>The heap property of a list, and the two loop invariants used to establish it.\<close>

definition is_heap :: "'a::linorder list \<Rightarrow> bool" where
  "is_heap h = (\<forall>i. 0 < i \<and> i < length h \<longrightarrow> h ! ((i - 1) div 2) \<le> h ! i)"

definition sd_inv :: "'a::linorder list \<Rightarrow> nat \<Rightarrow> 'a \<Rightarrow> bool" where
  "sd_inv h pos x \<longleftrightarrow>
     pos < length h \<and>
     (\<forall>i. 0 < i \<and> i < length h \<and> i \<noteq> pos \<and> (i - 1) div 2 \<noteq> pos
          \<longrightarrow> h ! ((i - 1) div 2) \<le> h ! i) \<and>
     (\<forall>c. 0 < c \<and> c < length h \<and> (c - 1) div 2 = pos
          \<longrightarrow> x \<le> h ! c \<and> (0 < pos \<longrightarrow> h ! ((pos - 1) div 2) \<le> h ! c))"

definition su_inv :: "'a::linorder list \<Rightarrow> nat \<Rightarrow> bool" where
  "su_inv h pos \<longleftrightarrow>
     pos < length h \<and>
     (\<forall>i. 0 < i \<and> i < length h \<and> i \<noteq> pos \<and> (i - 1) div 2 \<noteq> pos
          \<longrightarrow> h ! ((i - 1) div 2) \<le> h ! i) \<and>
     (\<forall>c. 0 < c \<and> c < length h \<and> (c - 1) div 2 = pos \<and> 0 < pos
          \<longrightarrow> h ! ((pos - 1) div 2) \<le> h ! c)"


definition entry_request :: "entry \<Rightarrow> vote_request" where
  "entry_request e = snd (snd (snd e))"

definition request_candidate :: "vote_request \<Rightarrow> string" where
  "request_candidate r = fst (snd r)"

section \<open>Responses\<close>

text \<open>
  The dictionaries returned by the RPC methods. A key that a branch leaves out of the
  dictionary is \<open>None\<close> in the corresponding field.
\<close>

record response =
  success :: bool
  message :: string

record register_response = response +
  reg_id :: "int option"

record login_response = response +
  login_session_id :: "string option"
  login_has_voted :: "bool option"

record vote_response = response +
  queued :: "bool option"

definition failure :: "string \<Rightarrow> response" where
  "failure m = \<lparr>success = False, message = m\<rparr>"

section \<open>Admission task: \<open>_process_single_vote\<close>\<close>

text \<open>
  The loop that looks a voter up by id and name returns the first matching dictionary,
  which the code then mutates in place; the model returns its index.
\<close>

primrec find_voter :: "voter list \<Rightarrow> int \<Rightarrow> string \<Rightarrow> nat option" where
  "find_voter [] i n = None"
| "find_voter (v # vs) i n =
    (if v_id v = i \<and> v_name v = n then Some 0 else map_option Suc (find_voter vs i n))"

text \<open>
  \<open>self.voting_deadline and click_time > self.voting_deadline\<close>: an unset deadline
  (\<open>None\<close>) and a deadline of zero are both false in Python.
\<close>

definition deadline_passed :: "real option \<Rightarrow> real \<Rightarrow> bool" where
  "deadline_passed deadline click_time =
    (case deadline of None \<Rightarrow> False | Some d \<Rightarrow> d \<noteq> 0 \<and> click_time > d)"

text \<open>
  Lines 187 to 206: the session lookup, \<open>active_votes += 1\<close> under \<open>vote_lock\<close>, and the
  in-progress mark.
\<close>

definition psv_begin :: "vote_request \<Rightarrow> server \<Rightarrow> session option \<times> server" where
  "psv_begin vote_request s =
    (case vote_request of (session_id, candidate, timestamp, click_time) \<Rightarrow>
       let voter_info = active_sessions s session_id;
           s1 = s\<lparr>active_votes := active_votes s + 1\<rparr>;
           s2 = (case voter_info of
                   None \<Rightarrow> s1
                 | Some info \<Rightarrow>
                     if s_id info \<notin> in_progress_votes s1
                     then s1\<lparr>in_progress_votes := insert (s_id info) (in_progress_votes s1)\<rparr>
                     else s1)
       in (voter_info, s2))"

text \<open>
  Lines 208 to 255, the body of the \<open>try\<close>. The part from the voter lookup to the
  return runs under \<open>db_lock\<close>.
\<close>

definition psv_body ::
  "network \<Rightarrow> vote_request \<Rightarrow> session option \<Rightarrow> server \<Rightarrow> response \<times> server"
where
  "psv_body net vote_request voter_info s =
    (case vote_request of (session_id, candidate, timestamp, click_time) \<Rightarrow>
       case voter_info of
         None \<Rightarrow> (failure ''Invalid session'', s)
       | Some info \<Rightarrow>
           if \<not> voting_active s then (failure ''Voting is not active'', s)
           else if deadline_passed (voting_deadline s) click_time
             then (failure ''Vote submitted after deadline'', s)
           else
             let s1 = snd (update_lamport_clock timestamp s) in
             case find_voter (voters_db s1) (s_id info) (s_name info) of
               None \<Rightarrow> (failure ''Voter not found'', s1)
             | Some i \<Rightarrow>
                 let voter = voters_db s1 ! i in
                 if has_voted voter then (failure ''Already voted'', s1)
                 else
                   let s2 = s1\<lparr>voters_db :=
                              (voters_db s1)[i := voter\<lparr>has_voted := True, vote := Some candidate\<rparr>]\<rparr>
                   in
                   if replicate_to_replicas net (RVote (v_id voter) candidate timestamp)
                        (replica_ports s2)
                   then (\<lparr>success = True, message = ''Vote recorded successfully''\<rparr>,
                         add_notification (NVoted (v_name voter) candidate) s2)
                   else (failure ''Replication failed'',
                         s2\<lparr>voters_db :=
                              (voters_db s2)[i := (voters_db s2 ! i)\<lparr>has_voted := False, vote := None\<rparr>]\<rparr>))"

text \<open>Lines 257 to 269, the \<open>finally\<close> clause.\<close>

definition psv_finally :: "session option \<Rightarrow> server \<Rightarrow> server" where
  "psv_finally voter_info s =
    (let s1 = s\<lparr>active_votes := active_votes s - 1\<rparr> in
     case voter_info of
       None \<Rightarrow> s1
     | Some info \<Rightarrow>
         if s_id info \<in> in_progress_votes s1
         then s1\<lparr>in_progress_votes := in_progress_votes s1 - {s_id info}\<rparr>
         else s1)"

text \<open>The whole task, run without interruption.\<close>

definition process_single_vote :: "network \<Rightarrow> vote_request \<Rightarrow> server \<Rightarrow> response \<times> server" where
  "process_single_vote net vote_request s =
    (case psv_begin vote_request s of (voter_info, s1) \<Rightarrow>
       case psv_body net vote_request voter_info s1 of (r, s2) \<Rightarrow>
         (r, psv_finally voter_info s2))"

section \<open>Scheduler: one pass of the loop of \<open>_process_vote_queue\<close>\<close>

text \<open>
  The result is the request handed to a new thread, if the pass starts one, and the
  state after the pass. A pass that sleeps leaves the state as it is.
\<close>

definition process_vote_queue_pass :: "server \<Rightarrow> vote_request option \<times> server" where
  "process_vote_queue_pass s =
    (if active_votes s < max_concurrent_votes s then
       if vote_queue s = [] then (None, s)
       else
         case heappop (vote_queue s) of
           None \<Rightarrow> (None, s)
         | Some (e, q) \<Rightarrow>
             let vote_request = entry_request e;
                 s1 = s\<lparr>vote_queue := q\<rparr>;
                 session_id = fst vote_request
             in
             case active_sessions s1 session_id of
               None \<Rightarrow> (None, add_notification (NDropped session_id) s1)
             | Some voter_info \<Rightarrow>
                 let voter_id = s_id voter_info in
                 if voter_id \<in> in_progress_votes s1 then
                   (None,
                    s1\<lparr>vote_queue :=
                         heappush (vote_queue s1)
                           (fst (snd (snd vote_request)), voter_id, vote_counter s1, vote_request),
                       vote_counter := vote_counter s1 + 1\<rparr>)
                 else
                   (Some vote_request,
                    s1\<lparr>in_progress_votes := insert voter_id (in_progress_votes s1)\<rparr>)
     else (None, s))"

section \<open>RPC methods\<close>

text \<open>
  \<open>Register\<close>. The loop over \<open>voters_db\<close> returns at the first record with the given
  name. The record sent to the replicas is the new voter dictionary itself, whose
  \<open>vote\<close> is \<open>None\<close>.
\<close>

definition Register :: "network \<Rightarrow> string \<Rightarrow> server \<Rightarrow> register_response \<times> server" where
  "Register net name s =
    (let s1 = snd (increment_lamport_clock s) in
     case find (\<lambda>v. v_name v = name) (voters_db s1) of
       Some voter \<Rightarrow>
         (\<lparr>success = True, message = ''Voter already registered'', reg_id = Some (v_id voter)\<rparr>, s1)
     | None \<Rightarrow>
         let new_id = int (length (voters_db s1)) + 1;
             new_voter = \<lparr>v_id = new_id, v_name = name, has_voted = False, vote = None\<rparr>;
             s2 = s1\<lparr>voters_db := voters_db s1 @ [new_voter]\<rparr>
         in
         if replicate_to_replicas (marshalled net) (RRegister new_voter) (replica_ports s2)
         then (\<lparr>success = True, message = ''Registration successful'', reg_id = Some new_id\<rparr>,
               add_notification (NRegistered name new_id) s2)
         else (\<lparr>success = False, message = ''Registration failed due to replication error'',
                 reg_id = None\<rparr>,
               s2\<lparr>voters_db := butlast (voters_db s2)\<rparr>))"

text \<open>
  Decimal rendering of an integer, as \<open>str\<close> and an f-string do it, and \<open>int\<close> of a
  float, which truncates towards zero.
\<close>

definition digit_char :: "nat \<Rightarrow> char" where
  "digit_char d = ''0123456789'' ! d"

function str_nat :: "nat \<Rightarrow> string" where
  "str_nat n = (if n < 10 then [digit_char n] else str_nat (n div 10) @ [digit_char (n mod 10)])"
  by pat_completeness auto
termination
  by (relation "measure (\<lambda>n. n)") auto

declare str_nat.simps [simp del]

definition str_int :: "int \<Rightarrow> string" where
  "str_int i = (if i < 0 then CHR ''-'' # str_nat (nat (- i)) else str_nat (nat i))"

definition py_int :: "real \<Rightarrow> int" where
  "py_int x = (if 0 \<le> x then \<lfloor>x\<rfloor> else \<lceil>x\<rceil>)"

text \<open>\<open>f"session_{voter_id}_{int(time.time())}"\<close>, given the clock reading.\<close>

definition make_session_id :: "int \<Rightarrow> real \<Rightarrow> string" where
  "make_session_id voter_id now = ''session_'' @ str_int voter_id @ ''_'' @ str_int (py_int now)"

text \<open>
  \<open>Login\<close> reads the wall clock twice: \<open>now\<close> for the session identifier and \<open>now'\<close>
  for \<open>login_time\<close>.
\<close>

definition Login :: "string \<Rightarrow> int \<Rightarrow> real \<Rightarrow> real \<Rightarrow> server \<Rightarrow> login_response \<times> server" where
  "Login name voter_id now now' s =
    (let s1 = snd (increment_lamport_clock s) in
     case find_voter (voters_db s1) voter_id name of
       None \<Rightarrow>
         (\<lparr>success = False, message = ''Invalid credentials'', login_session_id = None,
           login_has_voted = None\<rparr>, s1)
     | Some i \<Rightarrow>
         let voter = voters_db s1 ! i;
             session_id = make_session_id voter_id now;
             s2 = s1\<lparr>active_sessions :=
                      (active_sessions s1)
                        (session_id \<mapsto> \<lparr>s_id = voter_id, s_name = name, login_time = now'\<rparr>)\<rparr>
         in
         (\<lparr>success = True, message = ''Login successful'', login_session_id = Some session_id,
           login_has_voted = Some (has_voted voter)\<rparr>,
          add_notification (NLoggedIn name) s2))"

definition Vote :: "string \<Rightarrow> string \<Rightarrow> int \<Rightarrow> real \<Rightarrow> server \<Rightarrow> vote_response \<times> server" where
  "Vote session_id candidate timestamp click_time s =
    (let s1 = snd (increment_lamport_clock s) in
     if candidate \<notin> set (candidates s1)
     then (\<lparr>success = False, message = ''Invalid candidate'', queued = None\<rparr>, s1)
     else
       let vote_request = (session_id, candidate, timestamp, click_time) in
       case active_sessions s1 session_id of
         None \<Rightarrow> (\<lparr>success = False, message = ''Invalid session'', queued = None\<rparr>, s1)
       | Some voter_info \<Rightarrow>
           let voter_id = s_id voter_info;
               s2 = s1\<lparr>vote_queue :=
                        heappush (vote_queue s1) (timestamp, voter_id, vote_counter s1, vote_request),
                      vote_counter := vote_counter s1 + 1\<rparr>;
               queue_size = length (vote_queue s2)
           in
           (\<lparr>success = True, message = ''Vote queued for processing'', queued = Some True\<rparr>,
            add_notification (NQueued queue_size) s2))"

text \<open>
  The administrative toggles. Each replicates and ignores the outcome, so the network
  does not change the resulting state.

  \<open>SetTimer\<close> stores the deadline first and then formats
  \<open>datetime.fromtimestamp(end_time)\<close> for the notification. That call raises when
  \<open>end_time\<close> lies outside what the platform's time functions and the years 1 to 9999
  can represent; \<open>representable\<close> says whether it returns. When it raises, the method is
  left with the deadline stored and with no notification, no replication and no response.
\<close>

datatype error = FromTimestampError


definition SetTimer :: "real \<Rightarrow> bool \<Rightarrow> server \<Rightarrow> (error + response) \<times> server" where
  "SetTimer end_time representable s =
    (let s1 = s\<lparr>voting_deadline := Some end_time\<rparr> in
     if representable
     then (Inr \<lparr>success = True, message = ''Timer set successfully''\<rparr>,
           add_notification (NDeadline end_time) s1)
     else (Inl FromTimestampError, s1))"

definition StartVote :: "server \<Rightarrow> response \<times> server" where
  "StartVote s =
    (\<lparr>success = True, message = ''Voting started''\<rparr>,
     add_notification NStarted (s\<lparr>voting_active := True, results_published := False\<rparr>))"

definition StopVote :: "server \<Rightarrow> response \<times> server" where
  "StopVote s =
    (\<lparr>success = True, message = ''Voting stopped''\<rparr>,
     add_notification NStopped (s\<lparr>voting_active := False\<rparr>))"

text \<open>
  \<open>PublishResults\<close>. After that check the method collects the votes into a local list and
  ends; a Python function that ends without \<open>return\<close> yields \<open>None\<close>. The test
  \<open>voter["vote"]\<close> is false for \<open>None\<close> and for the empty string.
\<close>

definition collect_votes :: "voter list \<Rightarrow> string list" where
  "collect_votes db =
    concat (map (\<lambda>voter. case vote voter of
                            Some c \<Rightarrow> if has_voted voter \<and> c \<noteq> [] then [c] else []
                          | None \<Rightarrow> []) db)"

definition PublishResults :: "server \<Rightarrow> response option \<times> server" where
  "PublishResults s =
    (if voting_active s
     then (Some (failure ''Cannot publish results while voting is active''), s)
     else (let votes = collect_votes (voters_db s) in (None, s)))"

section \<open>The coordinator as a transition system\<close>

text \<open>
  The threads started by the scheduler run beside it. A configuration is the server state
  with the admission threads that have been started and have not finished; a thread is
  either started and still before line 198 (\<open>active_votes += 1\<close>), or past it and
  holding the session it looked up.
\<close>

datatype phase = Spawned | Running "session option"

record config =
  srv :: server
  tasks :: "(vote_request \<times> phase) list"

definition init_config :: "int list \<Rightarrow> config" where
  "init_config ports = \<lparr>srv = init_server ports, tasks = []\<rparr>"

text \<open>
  The steps of the system: an RPC call served to completion, one pass of the scheduler
  loop, the opening lines of the \<open>k\<close>-th outstanding thread, or the rest of that thread
  (the \<open>try\<close> body and the \<open>finally\<close> clause).
\<close>

datatype event =
    ERegister network string
  | ELogin string int real real
  | EVote string string int real
  | ESetTimer real bool
  | EStartVote
  | EStopVote
  | EPublishResults
  | ESchedule
  | ETaskBegin nat
  | ETaskFinish nat network

fun fire :: "event \<Rightarrow> config \<Rightarrow> config" where
  "fire (ERegister net name) c = c\<lparr>srv := snd (Register net name (srv c))\<rparr>"
| "fire (ELogin name voter_id now now') c = c\<lparr>srv := snd (Login name voter_id now now' (srv c))\<rparr>"
| "fire (EVote session_id candidate timestamp click_time) c =
    c\<lparr>srv := snd (Vote session_id candidate timestamp click_time (srv c))\<rparr>"
| "fire (ESetTimer end_time representable) c =
    c\<lparr>srv := snd (SetTimer end_time representable (srv c))\<rparr>"
| "fire EStartVote c = c\<lparr>srv := snd (StartVote (srv c))\<rparr>"
| "fire EStopVote c = c\<lparr>srv := snd (StopVote (srv c))\<rparr>"
| "fire EPublishResults c = c\<lparr>srv := snd (PublishResults (srv c))\<rparr>"
| "fire ESchedule c =
    (case process_vote_queue_pass (srv c) of
       (None, s') \<Rightarrow> c\<lparr>srv := s'\<rparr>
     | (Some vote_request, s') \<Rightarrow> \<lparr>srv = s', tasks = tasks c @ [(vote_request, Spawned)]\<rparr>)"
| "fire (ETaskBegin k) c =
    (if k < length (tasks c) then
       case tasks c ! k of
         (vote_request, Spawned) \<Rightarrow>
           (case psv_begin vote_request (srv c) of
              (voter_info, s') \<Rightarrow>
                \<lparr>srv = s', tasks = (tasks c)[k := (vote_request, Running voter_info)]\<rparr>)
       | (vote_request, Running voter_info) \<Rightarrow> c
     else c)"
| "fire (ETaskFinish k net) c =
    (if k < length (tasks c) then
       case tasks c ! k of
         (vote_request, Spawned) \<Rightarrow> c
       | (vote_request, Running voter_info) \<Rightarrow>
           (case psv_body net vote_request voter_info (srv c) of
              (r, s') \<Rightarrow>
                \<lparr>srv = psv_finally voter_info s', tasks = take k (tasks c) @ drop (Suc k) (tasks c)\<rparr>)
     else c)"

definition run :: "event list \<Rightarrow> config \<Rightarrow> config" where
  "run es c = foldl (\<lambda>c e. fire e c) c es"

inductive reachable :: "int list \<Rightarrow> config \<Rightarrow> bool" for ports :: "int list" where
  reachable_init: "reachable ports (init_config ports)"
| reachable_fire: "reachable ports c \<Longrightarrow> reachable ports (fire e c)"

text \<open>The ballot invariant of the registry, and the state invariant that carries it.\<close>

definition ballots_valid :: "server \<Rightarrow> bool" where
  "ballots_valid s =
    (\<forall>v \<in> set (voters_db s). has_voted v \<longrightarrow> (\<exists>x. vote v = Some x \<and> x \<in> set (candidates s)))"

definition server_inv :: "server \<Rightarrow> bool" where
  "server_inv s \<longleftrightarrow>
     ballots_valid s \<and>
     is_heap (vote_queue s) \<and>
     (\<forall>e \<in> set (vote_queue s). request_candidate (entry_request e) \<in> set (candidates s))"

definition config_inv :: "config \<Rightarrow> bool" where
  "config_inv c \<longleftrightarrow>
     server_inv (srv c) \<and>
     (\<forall>t \<in> set (tasks c). request_candidate (fst t) \<in> set (candidates (srv c)))"

section \<open>Concrete environments used in examples\<close>

text \<open>A network whose first delivery attempt raises and whose later attempts are acknowledged.\<close>

definition first_down :: network where
  "first_down operation k p = (if k = 0 then Raised else Returned True)"

text \<open>A network on which every attempt is acknowledged, and one on which every attempt raises.\<close>

definition replicas_up :: network where
  "replicas_up operation k p = Returned True"

definition replicas_down :: network where
  "replicas_down operation k p = Raised"

text \<open>
  Alice's session, the server after Alice has logged in at second 1000 and voting has
  been started, and that server with one more session whose voter is not in the registry.
\<close>

definition alice_session :: session where
  "alice_session = \<lparr>s_id = 1, s_name = ''Alice'', login_time = 1000\<rparr>"

definition demo_server :: server where
  "demo_server = snd (StartVote (snd (Login ''Alice'' 1 1000 1000 (init_server [8001, 8002]))))"

definition ghost_server :: server where
  "ghost_server =
    demo_server\<lparr>active_sessions :=
      (active_sessions demo_server)
        (''ghost'' \<mapsto> \<lparr>s_id = 99, s_name = ''Ghost'', login_time = 1000\<rparr>)\<rparr>"


definition voted_config :: config where
  "voted_config =
    run [ELogin ''Alice'' 1 1000 1000, EStartVote,
         EVote ''session_1_1000'' ''Candidate A'' 1 1000,
         ESchedule, ETaskBegin 0, ETaskFinish 0 replicas_up]
      (init_config [8001, 8002])"

definition five_config :: config where
  "five_config =
    run [ELogin ''Alice'' 1 1000 1000, ELogin ''Bob'' 2 1000 1000,
         ELogin ''Charlie'' 3 1000 1000, ELogin ''Diana'' 4 1000 1000,
         ELogin ''Eve'' 5 1000 1000, ELogin ''Frank'' 6 1000 1000,
         EStartVote,
         EVote ''session_1_1000'' ''Candidate A'' 1 1000,
         EVote ''session_2_1000'' ''Candidate A'' 2 1000,
         EVote ''session_3_1000'' ''Candidate A'' 3 1000,
         EVote ''session_4_1000'' ''Candidate A'' 4 1000,
         EVote ''session_5_1000'' ''Candidate A'' 5 1000,
         EVote ''session_6_1000'' ''Candidate A'' 6 1000,
         ESchedule, ESchedule, ESchedule, ESchedule, ESchedule]
      (init_config [8001, 8002])"

section \<open>Properties of the logical clock\<close>

lemma clock_call_run_result:
  "clock_call_run c s = (r, s') \<Longrightarrow> lamport_clock s < r \<and> lamport_clock s' = r"
  by (cases c) (auto simp: increment_lamport_clock_def update_lamport_clock_def Let_def)

lemma clock_returns_above:
  "r \<in> set (clock_returns cs s) \<Longrightarrow> lamport_clock s < r"
proof (induction cs arbitrary: s)
  case Nil
  then show ?case by simp
next
  case (Cons c cs)
  obtain r0 s0 where step: "clock_call_run c s = (r0, s0)"
    by (cases "clock_call_run c s")
  from clock_call_run_result [OF step]
  have lt: "lamport_clock s < r0" and eq: "lamport_clock s0 = r0" by simp_all
  from Cons.prems step have "r = r0 \<or> r \<in> set (clock_returns cs s0)" by simp
  then show ?case
  proof
    assume "r = r0"
    with lt show ?thesis by simp
  next
    assume "r \<in> set (clock_returns cs s0)"
    from Cons.IH [OF this] eq lt show ?thesis by simp
  qed
qed

lemma clock_returns_increasing: "sorted_wrt (<) (clock_returns cs s)"
proof (induction cs arbitrary: s)
  case Nil
  then show ?case by simp
next
  case (Cons c cs)
  obtain r0 s0 where step: "clock_call_run c s = (r0, s0)"
    by (cases "clock_call_run c s")
  from clock_call_run_result [OF step] have eq: "lamport_clock s0 = r0" by simp
  have "\<forall>r \<in> set (clock_returns cs s0). r0 < r"
    using clock_returns_above [of _ cs s0] eq by auto
  with Cons.IH [of s0] step show ?case by simp
qed

text \<open>
  Claim C6. \<open>tick\<close> adds one to the counter and returns the new counter; \<open>observe t\<close>
  sets the counter to \<open>max(current, t) + 1\<close> and returns it; and along every serialized
  sequence of such calls the returned values are strictly increasing, each one above the
  one returned before it.
\<close>

theorem lamport_clock_monotone:
  "increment_lamport_clock s = (lamport_clock s + 1, s\<lparr>lamport_clock := lamport_clock s + 1\<rparr>)
   \<and> update_lamport_clock t s =
       (max (lamport_clock s) t + 1, s\<lparr>lamport_clock := max (lamport_clock s) t + 1\<rparr>)
   \<and> sorted_wrt (<) (clock_returns cs s)"
  using clock_returns_increasing [of cs s]
  by (simp add: increment_lamport_clock_def update_lamport_clock_def Let_def)

section \<open>Correctness of the heap operations\<close>

lemma mset_update_swap:
  assumes "i < length h" "j < length h"
  shows "mset (h[i := h ! j, j := x]) = mset (h[i := x])"
proof (cases "i = j")
  case True
  then show ?thesis by simp
next
  case False
  let ?g = "h[i := x]"
  have "mset (?g[j := ?g ! i, i := ?g ! j]) = mset ?g"
    using assms by (intro mset_swap) simp_all
  moreover have "?g[j := ?g ! i, i := ?g ! j] = h[i := h ! j, j := x]"
    using False assms by (auto simp: list_eq_iff_nth_eq nth_list_update)
  ultimately show ?thesis by simp
qed

lemma length_siftdown_loop [simp]:
  "length (siftdown_loop heap startpos pos newitem) = length heap"
  by (induction heap startpos pos newitem rule: siftdown_loop.induct)
     (subst siftdown_loop.simps, simp add: Let_def)

lemma length_siftup_loop [simp]:
  "length (fst (siftup_loop heap endpos pos)) = length heap"
  by (induction heap endpos pos rule: siftup_loop.induct)
     (subst siftup_loop.simps, simp add: Let_def)

lemma snd_siftup_loop_bound:
  "pos < length heap \<Longrightarrow> endpos = length heap \<Longrightarrow> snd (siftup_loop heap endpos pos) < length heap"
proof (induction heap endpos pos rule: siftup_loop.induct)
  case (1 heap endpos pos)
  show ?case
    apply (subst siftup_loop.simps)
    using 1 by (auto simp: Let_def)
qed

lemma mset_siftdown_loop:
  "pos < length heap \<Longrightarrow>
   mset (siftdown_loop heap 0 pos newitem) = mset (heap[pos := newitem])"
proof (induction heap "0::nat" pos newitem rule: siftdown_loop.induct)
  case (1 heap pos newitem)
  show ?case
  proof (cases "0 < pos \<and> newitem < heap ! ((pos - 1) div 2)")
    case True
    let ?pp = "(pos - 1) div 2"
    have pp: "?pp < length heap" using "1.prems" by simp
    have "siftdown_loop heap 0 pos newitem = siftdown_loop (heap[pos := heap ! ?pp]) 0 ?pp newitem"
      using True by (subst siftdown_loop.simps) (simp add: Let_def)
    also have "mset \<dots> = mset (heap[pos := heap ! ?pp, ?pp := newitem])"
      using True pp by (intro "1.hyps") simp_all
    also have "\<dots> = mset (heap[pos := newitem])"
      using "1.prems" pp by (rule mset_update_swap)
    finally show ?thesis .
  next
    case False
    then show ?thesis by (subst siftdown_loop.simps) (auto simp: Let_def)
  qed
qed

lemma mset_siftup_loop:
  "pos < length heap \<Longrightarrow> endpos = length heap \<Longrightarrow>
   mset ((fst (siftup_loop heap endpos pos))[snd (siftup_loop heap endpos pos) := x])
     = mset (heap[pos := x])"
proof (induction heap endpos pos rule: siftup_loop.induct)
  case (1 heap endpos pos)
  show ?case
  proof (cases "2 * pos + 1 < endpos")
    case False
    then show ?thesis by (subst (1 2) siftup_loop.simps) (simp add: Let_def)
  next
    case True
    define c where "c = (if 2 * pos + 2 < endpos \<and> \<not> heap ! (2 * pos + 1) < heap ! (2 * pos + 2)
                         then 2 * pos + 2 else 2 * pos + 1)"
    have c: "c < length heap" using True "1.prems" by (simp add: c_def)
    have unf: "siftup_loop heap endpos pos = siftup_loop (heap[pos := heap ! c]) endpos c"
      using True by (subst siftup_loop.simps) (simp add: Let_def c_def)
    have "mset ((fst (siftup_loop (heap[pos := heap ! c]) endpos c))
                  [snd (siftup_loop (heap[pos := heap ! c]) endpos c) := x])
          = mset (heap[pos := heap ! c, c := x])"
      using True c "1.prems" by (intro "1.IH" [OF refl True refl]) (simp_all add: c_def)
    also have "\<dots> = mset (heap[pos := x])"
      using "1.prems" c by (intro mset_update_swap) simp_all
    finally show ?thesis by (simp add: unf)
  qed
qed


lemma sd_inv_step:
  assumes inv: "sd_inv h pos x" and pos: "0 < pos" and lt: "x < h ! ((pos - 1) div 2)"
  shows "sd_inv (h[pos := h ! ((pos - 1) div 2)]) ((pos - 1) div 2) x"
proof -
  let ?pp = "(pos - 1) div 2"
  let ?h = "h[pos := h ! ?pp]"
  from inv have len: "pos < length h"
    and a: "\<And>i. 0 < i \<Longrightarrow> i < length h \<Longrightarrow> i \<noteq> pos \<Longrightarrow> (i - 1) div 2 \<noteq> pos
               \<Longrightarrow> h ! ((i - 1) div 2) \<le> h ! i"
    and c: "\<And>c. 0 < c \<Longrightarrow> c < length h \<Longrightarrow> (c - 1) div 2 = pos \<Longrightarrow> h ! ?pp \<le> h ! c"
    using pos unfolding sd_inv_def by blast+
  have pp_lt: "?pp < pos" using pos by simp
  have A: "?h ! ((i - 1) div 2) \<le> ?h ! i"
    if "0 < i" "i < length ?h" "i \<noteq> ?pp" "(i - 1) div 2 \<noteq> ?pp" for i
  proof -
    have ne: "i \<noteq> pos" using that by blast
    show ?thesis
    proof (cases "(i - 1) div 2 = pos")
      case True
      then show ?thesis using c [of i] that ne len by simp
    next
      case False
      then show ?thesis using a [of i] that ne len by simp
    qed
  qed
  have B: "x \<le> ?h ! c \<and> (0 < ?pp \<longrightarrow> ?h ! ((?pp - 1) div 2) \<le> ?h ! c)"
    if "0 < c" "c < length ?h" "(c - 1) div 2 = ?pp" for c
  proof -
    have gp: "0 < ?pp \<Longrightarrow> h ! ((?pp - 1) div 2) \<le> h ! ?pp"
      using a [of ?pp] pp_lt len by simp
    have gp_ne: "0 < ?pp \<Longrightarrow> (?pp - 1) div 2 \<noteq> pos" using pp_lt by linarith
    show ?thesis
    proof (cases "c = pos")
      case True
      then show ?thesis using lt len gp gp_ne by (simp add: less_imp_le)
    next
      case False
      have "h ! ?pp \<le> h ! c" using a [of c] that False pp_lt by simp
      then show ?thesis using False lt gp gp_ne by (auto simp: less_imp_le)
    qed
  qed
  have L: "?pp < length ?h" using pp_lt len by simp
  show ?thesis
    unfolding sd_inv_def using A B L by blast
qed

lemma sd_inv_final:
  assumes inv: "sd_inv h pos x" and stop: "pos = 0 \<or> \<not> x < h ! ((pos - 1) div 2)"
  shows "is_heap (h[pos := x])"
  unfolding is_heap_def
proof (intro allI impI)
  fix i assume i: "0 < i \<and> i < length (h[pos := x])"
  from inv have len: "pos < length h"
    and a: "\<And>i. 0 < i \<Longrightarrow> i < length h \<Longrightarrow> i \<noteq> pos \<Longrightarrow> (i - 1) div 2 \<noteq> pos
               \<Longrightarrow> h ! ((i - 1) div 2) \<le> h ! i"
    and b: "\<And>c. 0 < c \<Longrightarrow> c < length h \<Longrightarrow> (c - 1) div 2 = pos \<Longrightarrow> x \<le> h ! c"
    unfolding sd_inv_def by blast+
  have par: "(i - 1) div 2 < i" using i by linarith
  show "h[pos := x] ! ((i - 1) div 2) \<le> h[pos := x] ! i"
  proof (cases "i = pos")
    case True
    then show ?thesis using stop i par len by (auto simp: not_less)
  next
    case False
    show ?thesis
    proof (cases "(i - 1) div 2 = pos")
      case True
      then show ?thesis using b [of i] i False len by simp
    next
      case F2: False
      then show ?thesis using a [of i] i False by simp
    qed
  qed
qed

lemma is_heap_siftdown_loop:
  "sd_inv heap pos newitem \<Longrightarrow> is_heap (siftdown_loop heap 0 pos newitem)"
proof (induction heap "0::nat" pos newitem rule: siftdown_loop.induct)
  case (1 heap pos newitem)
  show ?case
  proof (cases "0 < pos \<and> newitem < heap ! ((pos - 1) div 2)")
    case True
    then have "siftdown_loop heap 0 pos newitem
        = siftdown_loop (heap[pos := heap ! ((pos - 1) div 2)]) 0 ((pos - 1) div 2) newitem"
      by (subst siftdown_loop.simps) (simp add: Let_def)
    moreover have "is_heap (siftdown_loop (heap[pos := heap ! ((pos - 1) div 2)]) 0 ((pos - 1) div 2) newitem)"
      using True "1.prems" by (intro "1.hyps" sd_inv_step) simp_all
    ultimately show ?thesis by simp
  next
    case False
    then have "siftdown_loop heap 0 pos newitem = heap[pos := newitem]"
      by (subst siftdown_loop.simps) (auto simp: Let_def)
    moreover have "is_heap (heap[pos := newitem])"
      using "1.prems" False by (intro sd_inv_final) auto
    ultimately show ?thesis by simp
  qed
qed


lemma su_inv_step:
  assumes inv: "su_inv h pos" and ch: "2 * pos + 1 < length h"
    and c_def: "c = (if 2 * pos + 2 < length h \<and> \<not> h ! (2 * pos + 1) < h ! (2 * pos + 2)
                     then 2 * pos + 2 else 2 * pos + 1)"
  shows "su_inv (h[pos := h ! c]) c"
proof -
  let ?h = "h[pos := h ! c]"
  from inv have len: "pos < length h"
    and a: "\<And>i. 0 < i \<Longrightarrow> i < length h \<Longrightarrow> i \<noteq> pos \<Longrightarrow> (i - 1) div 2 \<noteq> pos
               \<Longrightarrow> h ! ((i - 1) div 2) \<le> h ! i"
    and g: "\<And>c. 0 < c \<Longrightarrow> c < length h \<Longrightarrow> (c - 1) div 2 = pos \<Longrightarrow> 0 < pos
               \<Longrightarrow> h ! ((pos - 1) div 2) \<le> h ! c"
    unfolding su_inv_def by blast+
  have c_len: "c < length h" and c_pos: "0 < c" and c_par: "(c - 1) div 2 = pos"
    and c_gt: "pos < c"
    using ch by (auto simp: c_def)
  have c_min: "h ! c \<le> h ! i" if "0 < i" "i < length h" "(i - 1) div 2 = pos" for i
  proof -
    from that have "i = 2 * pos + 1 \<or> i = 2 * pos + 2" by linarith
    then show ?thesis using that by (auto simp: c_def not_less less_imp_le)
  qed
  have A: "?h ! ((i - 1) div 2) \<le> ?h ! i"
    if "0 < i" "i < length ?h" "i \<noteq> c" "(i - 1) div 2 \<noteq> c" for i
  proof (cases "i = pos")
    case True
    have "h ! ((pos - 1) div 2) \<le> h ! c" using g [of c] c_len c_pos c_par that True by simp
    moreover have "(pos - 1) div 2 \<noteq> pos" using that True by linarith
    ultimately show ?thesis using True len by simp
  next
    case False
    show ?thesis
    proof (cases "(i - 1) div 2 = pos")
      case True
      then show ?thesis using c_min [of i] that False len by simp
    next
      case F2: False
      then show ?thesis using a [of i] that False by simp
    qed
  qed
  have G: "?h ! ((c - 1) div 2) \<le> ?h ! d"
    if "0 < d" "d < length ?h" "(d - 1) div 2 = c" for d
  proof -
    have "d \<noteq> pos" using that c_gt by linarith
    moreover have "h ! c \<le> h ! d" using a [of d] that c_gt \<open>d \<noteq> pos\<close> by simp
    ultimately show ?thesis using c_par len by simp
  qed
  have L: "c < length ?h" using c_len by simp
  show ?thesis unfolding su_inv_def using A G L by blast
qed

lemma su_inv_final:
  assumes inv: "su_inv h pos" and leaf: "\<not> 2 * pos + 1 < length h"
  shows "sd_inv (h[pos := x]) pos x"
proof -
  let ?h = "h[pos := x]"
  from inv have len: "pos < length h"
    and a: "\<And>i. 0 < i \<Longrightarrow> i < length h \<Longrightarrow> i \<noteq> pos \<Longrightarrow> (i - 1) div 2 \<noteq> pos
               \<Longrightarrow> h ! ((i - 1) div 2) \<le> h ! i"
    unfolding su_inv_def by blast+
  have A: "?h ! ((i - 1) div 2) \<le> ?h ! i"
    if "0 < i" "i < length ?h" "i \<noteq> pos" "(i - 1) div 2 \<noteq> pos" for i
    using a [of i] that by simp
  have B: "x \<le> ?h ! c \<and> (0 < pos \<longrightarrow> ?h ! ((pos - 1) div 2) \<le> ?h ! c)"
    if "0 < c" "c < length ?h" "(c - 1) div 2 = pos" for c
  proof -
    from that have "c = 2 * pos + 1 \<or> c = 2 * pos + 2" by linarith
    with that leaf show ?thesis by auto
  qed
  have L: "pos < length ?h" using len by simp
  show ?thesis unfolding sd_inv_def using A B L by blast
qed

lemma sd_inv_siftup_loop:
  "su_inv heap pos \<Longrightarrow> endpos = length heap \<Longrightarrow>
   sd_inv ((fst (siftup_loop heap endpos pos))[snd (siftup_loop heap endpos pos) := x])
          (snd (siftup_loop heap endpos pos)) x"
proof (induction heap endpos pos rule: siftup_loop.induct)
  case (1 heap endpos pos)
  show ?case
  proof (cases "2 * pos + 1 < endpos")
    case False
    then have "siftup_loop heap endpos pos = (heap, pos)"
      by (subst siftup_loop.simps) (simp add: Let_def)
    then show ?thesis using su_inv_final [of heap pos x] "1.prems" False by simp
  next
    case True
    define c where "c = (if 2 * pos + 2 < endpos \<and> \<not> heap ! (2 * pos + 1) < heap ! (2 * pos + 2)
                         then 2 * pos + 2 else 2 * pos + 1)"
    have unf: "siftup_loop heap endpos pos = siftup_loop (heap[pos := heap ! c]) endpos c"
      using True by (subst siftup_loop.simps) (simp add: Let_def c_def)
    have "su_inv (heap[pos := heap ! c]) c"
      using "1.prems" True by (intro su_inv_step) (simp_all add: c_def)
    then have "sd_inv ((fst (siftup_loop (heap[pos := heap ! c]) endpos c))
                  [snd (siftup_loop (heap[pos := heap ! c]) endpos c) := x])
                (snd (siftup_loop (heap[pos := heap ! c]) endpos c)) x"
      using True "1.prems" by (intro "1.IH" [OF refl True refl]) (simp_all add: c_def)
    then show ?thesis by (simp add: unf)
  qed
qed

lemma is_heap_su_inv: "is_heap h \<Longrightarrow> h \<noteq> [] \<Longrightarrow> su_inv (h[0 := x]) 0"
  unfolding is_heap_def su_inv_def by (auto simp: nth_list_update)

lemma siftup_unfold:
  assumes "h \<noteq> []"
  shows "siftup (h[0 := x]) 0 =
    siftdown_loop ((fst (siftup_loop (h[0 := x]) (length h) 0))
                     [snd (siftup_loop (h[0 := x]) (length h) 0) := x])
      0 (snd (siftup_loop (h[0 := x]) (length h) 0)) x"
proof -
  obtain h' p' where r: "siftup_loop (h[0 := x]) (length h) 0 = (h', p')"
    by (cases "siftup_loop (h[0 := x]) (length h) 0")
  have "0 < length (h[0 := x])" using assms by simp
  from snd_siftup_loop_bound [OF this refl] have "p' < length h" by (simp add: r)
  moreover have "length h' = length h"
    using length_siftup_loop [of "h[0 := x]" "length h" 0] by (simp add: r)
  ultimately have nth: "h'[p' := x] ! p' = x" by simp
  have "siftup (h[0 := x]) 0 = siftdown (h'[p' := x]) 0 p'"
    using assms r by (simp add: siftup_def Let_def)
  also have "\<dots> = siftdown_loop (h'[p' := x]) 0 p' x"
    unfolding siftdown_def nth ..
  finally show ?thesis by (simp add: r)
qed

lemma is_heap_siftup:
  assumes "is_heap h" "h \<noteq> []"
  shows "is_heap (siftup (h[0 := x]) 0)"
proof -
  let ?g = "h[0 := x]"
  let ?r = "siftup_loop ?g (length h) 0"
  have inv: "su_inv ?g 0" using assms by (rule is_heap_su_inv)
  have sd: "sd_inv ((fst ?r)[snd ?r := x]) (snd ?r) x"
    using sd_inv_siftup_loop [OF inv refl, of x] by simp
  show ?thesis
    using is_heap_siftdown_loop [OF sd] assms(2) by (simp add: siftup_unfold)
qed

lemma mset_siftup:
  assumes "h \<noteq> []"
  shows "mset (siftup (h[0 := x]) 0) = mset (h[0 := x])"
proof -
  let ?g = "h[0 := x]"
  let ?r = "siftup_loop ?g (length h) 0"
  have "0 < length ?g" using assms by simp
  from snd_siftup_loop_bound [OF this refl] have bound: "snd ?r < length (fst ?r)" by simp
  have "mset (siftdown_loop ((fst ?r)[snd ?r := x]) 0 (snd ?r) x) = mset ((fst ?r)[snd ?r := x])"
    using bound by (subst mset_siftdown_loop) simp_all
  moreover have "mset ((fst ?r)[snd ?r := x]) = mset (?g[0 := x])"
    using mset_siftup_loop [OF \<open>0 < length ?g\<close> refl, of x] by simp
  ultimately show ?thesis using assms by (simp add: siftup_unfold)
qed

lemma is_heap_min:
  assumes "is_heap h" "i < length h"
  shows "h ! 0 \<le> h ! i"
  using assms(2)
proof (induction i rule: less_induct)
  case (less i)
  show ?case
  proof (cases "i = 0")
    case True
    then show ?thesis by simp
  next
    case False
    then have p: "(i - 1) div 2 < i" by linarith
    have "h ! 0 \<le> h ! ((i - 1) div 2)" using less p by simp
    also have "\<dots> \<le> h ! i" using assms(1) False less.prems by (simp add: is_heap_def)
    finally show ?thesis .
  qed
qed

lemma is_heap_Nil: "is_heap []"
  by (simp add: is_heap_def)

lemma is_heap_heappush: 
  assumes "is_heap h"
  shows "is_heap (heappush h x)"
proof -
  have "sd_inv (h @ [x]) (length h) x"
    unfolding sd_inv_def
  proof (intro conjI allI impI)
    show "length h < length (h @ [x])" by simp
  next
    fix i assume "0 < i \<and> i < length (h @ [x]) \<and> i \<noteq> length h \<and> (i - 1) div 2 \<noteq> length h"
    then have i: "0 < i" "i < length h" by simp_all
    then have "(i - 1) div 2 < length h" by linarith
    then show "(h @ [x]) ! ((i - 1) div 2) \<le> (h @ [x]) ! i"
      using assms i by (simp add: nth_append is_heap_def)
  next
    fix c assume "0 < c \<and> c < length (h @ [x]) \<and> (c - 1) div 2 = length h"
    then have "0 < c" "c < length h + 1" "(c - 1) div 2 = length h" by simp_all
    then have False by linarith
    then show "x \<le> (h @ [x]) ! c" ..
  next
    fix c assume "0 < c \<and> c < length (h @ [x]) \<and> (c - 1) div 2 = length h"
    then have "0 < c" "c < length h + 1" "(c - 1) div 2 = length h" by simp_all
    then have False by linarith
    then show "(h @ [x]) ! ((length h - 1) div 2) \<le> (h @ [x]) ! c" ..
  qed
  then show ?thesis
    using is_heap_siftdown_loop [of "h @ [x]" "length h" x]
    by (simp add: heappush_def siftdown_def)
qed

lemma mset_heappush: "mset (heappush h x) = add_mset x (mset h)"
  using mset_siftdown_loop [of "length h" "h @ [x]" x]
  by (simp add: heappush_def siftdown_def)

lemma heappop_Some:
  assumes "is_heap h" "h \<noteq> []"
  shows "\<exists>h'. heappop h = Some (h ! 0, h') \<and> is_heap h' \<and> mset h = add_mset (h ! 0) (mset h')"
proof (cases "butlast h = []")
  case True
  then have "h = [last h]" using assms(2) by (metis append_butlast_last_id append_Nil)
  then obtain a where "h = [a]" by blast
  then show ?thesis by (simp add: heappop_def is_heap_Nil)
next
  case False
  let ?b = "butlast h"
  have hb: "h = ?b @ [last h]" using assms(2) by simp
  have hp: "heappop h = Some (?b ! 0, siftup (?b[0 := last h]) 0)"
    using assms(2) False by (simp add: heappop_def Let_def)
  have b0: "?b ! 0 = h ! 0" using False by (cases h rule: rev_cases) (auto simp: nth_append)
  have hb_heap: "is_heap ?b"
    using assms(1) unfolding is_heap_def by (auto simp: nth_butlast) 
  have 1: "is_heap (siftup (?b[0 := last h]) 0)"
    using hb_heap False by (rule is_heap_siftup)
  have "mset (siftup (?b[0 := last h]) 0) = mset (?b[0 := last h])"
    using False by (rule mset_siftup)
  also have "\<dots> = add_mset (last h) (mset ?b - {#?b ! 0#})"
    using False by (intro mset_update) (simp del: length_butlast)
  finally have eq: "mset (siftup (?b[0 := last h]) 0) = add_mset (last h) (mset ?b - {#?b ! 0#})" .
  have "0 < length ?b" using False by (simp del: length_butlast)
  then have "?b ! 0 \<in># mset ?b" by (simp only: in_multiset_in_set nth_mem)
  then have 2: "add_mset (?b ! 0) (mset (siftup (?b[0 := last h]) 0)) = add_mset (last h) (mset ?b)"
    by (simp add: eq)
  have "mset h = add_mset (last h) (mset ?b)" by (subst hb) simp
  with 1 2 hp b0 show ?thesis by simp
qed

section \<open>Replicator\<close>

lemma replicate_loop_fst:
  "fst (replicate_loop call ports k attempted n) = attempted @ ports"
  by (induction ports arbitrary: k attempted n) (auto split: rpc_outcome.splits)

lemma replicate_loop_mono:
  "n \<le> snd (replicate_loop call ports k attempted n)"
proof (induction ports arbitrary: k attempted n)
  case Nil
  then show ?case by simp
next
  case (Cons p ports)
  show ?case
    using Cons [of "n + 1" "Suc k" "attempted @ [p]"] Cons [of n "Suc k" "attempted @ [p]"]
    by (auto split: rpc_outcome.splits)
qed

lemma replicate_loop_ack:
  "n < snd (replicate_loop call ports k attempted n)
     \<longleftrightarrow> (\<exists>i<length ports. call (k + i) (ports ! i) = Returned True)"
proof (induction ports arbitrary: k attempted n)
  case Nil
  then show ?case by simp
next
  case (Cons p ports)
  have shift: "(\<exists>i<length (p # ports). call (k + i) ((p # ports) ! i) = Returned True)
      \<longleftrightarrow> call k p = Returned True \<or> (\<exists>i<length ports. call (Suc k + i) (ports ! i) = Returned True)"
    (is "?L \<longleftrightarrow> ?R")
  proof
    assume ?L
    then obtain i where i: "i < length (p # ports)" "call (k + i) ((p # ports) ! i) = Returned True"
      by blast
    show ?R
    proof (cases i)
      case 0
      with i show ?thesis by simp
    next
      case (Suc j)
      with i have "j < length ports" "call (Suc k + j) (ports ! j) = Returned True" by simp_all
      then show ?thesis by blast
    qed
  next
    assume ?R
    then show ?L
    proof
      assume "call k p = Returned True"
      then have "0 < length (p # ports) \<and> call (k + 0) ((p # ports) ! 0) = Returned True" by simp
      then show ?L by blast
    next
      assume "\<exists>i<length ports. call (Suc k + i) (ports ! i) = Returned True"
      then obtain i where "i < length ports" "call (Suc k + i) (ports ! i) = Returned True" by blast
      then have "Suc i < length (p # ports) \<and> call (k + Suc i) ((p # ports) ! Suc i) = Returned True"
        by simp
      then show ?L by blast
    qed
  qed
  show ?case
  proof (cases "call k p = Returned True")
    case True
    have "n + 1 \<le> snd (replicate_loop call ports (Suc k) (attempted @ [p]) (n + 1))"
      by (rule replicate_loop_mono)
    with True show ?thesis unfolding shift by simp
  next
    case False
    then have "replicate_loop call (p # ports) k attempted n
        = replicate_loop call ports (Suc k) (attempted @ [p]) n"
      by (cases "call k p") auto
    with False Cons [of n "Suc k" "attempted @ [p]"] show ?thesis unfolding shift by simp
  qed
qed

lemma replicate_result_iff:
  "replicate_to_replicas net operation ports
     \<longleftrightarrow> (\<exists>k<length ports. net operation k (ports ! k) = Returned True)"
proof -
  have "(1 \<le> x) = (0 < x)" for x :: int by linarith
  then show ?thesis
    using replicate_loop_ack [of 0 "net operation" ports 0 "[]"]
    by (simp add: replicate_to_replicas_def)
qed

text \<open>
  Claim C5. A call to the replicator attempts delivery to every configured endpoint, in
  order, whatever the earlier attempts did (the attempts made are exactly the configured
  list), and it returns success if and only if at least one attempt returned a true
  acknowledgement.
\<close>

theorem replicate_every_endpoint_any_ack:
  "replicate_attempts net operation ports = ports
   \<and> (replicate_to_replicas net operation ports
        \<longleftrightarrow> (\<exists>k<length ports. net operation k (ports ! k) = Returned True))"
  by (simp add: replicate_attempts_def replicate_loop_fst replicate_result_iff)

theorem replicate_every_endpoint_any_ack_witness:
  "replicate_attempts first_down RStartVote [8001, 8002] = [8001, 8002]
   \<and> replicate_to_replicas first_down RStartVote [8001, 8002]"
  using replicate_every_endpoint_any_ack [of first_down RStartVote "[8001, 8002]"]
  by (auto simp: first_down_def)


lemma replicate_up [simp]: "replicate_to_replicas replicas_up operation (p # ps)"
  using replicate_result_iff [of replicas_up operation "p # ps"]
  by (auto simp: replicas_up_def)

lemma replicate_down [simp]: "\<not> replicate_to_replicas replicas_down operation ps"
  using replicate_result_iff [of replicas_down operation ps]
  by (simp add: replicas_down_def)

section \<open>Publishing results\<close>

text \<open>
  Claim C10. When voting is not active, \<open>PublishResults\<close> runs past the activity check, collects
  the votes and ends without a \<open>return\<close>: the caller receives \<open>None\<close>, not a
  response record, and the state is unchanged. Only the call made while voting is active
  returns a structured response, the failure \<open>Cannot publish results while voting is
  active\<close>.
\<close>

theorem PublishResults_returns_None:
  "(\<not> voting_active s \<longrightarrow> PublishResults s = (None, s))
   \<and> (voting_active s \<longrightarrow>
        PublishResults s = (Some (failure ''Cannot publish results while voting is active''), s)
        \<and> \<not> success (failure ''Cannot publish results while voting is active''))"
  by (simp add: PublishResults_def failure_def Let_def)

theorem PublishResults_returns_None_witness:
  "PublishResults (init_server [8001, 8002]) = (None, init_server [8001, 8002])
   \<and> fst (PublishResults (snd (StartVote (init_server [8001, 8002]))))
       = Some (failure ''Cannot publish results while voting is active'')"
  using PublishResults_returns_None [of "init_server [8001, 8002]"]
    PublishResults_returns_None [of "snd (StartVote (init_server [8001, 8002]))"]
  by (simp add: init_server_def StartVote_def add_notification_def)

section \<open>Registration\<close>

lemma find_name_initial: "find (\<lambda>v. v_name v = ''Zed'') initial_voters = None"
  by (simp add: initial_voters_def mk_voter_def)

lemma marshalled_register_fails:
  "vote v = None \<Longrightarrow> \<not> replicate_to_replicas (marshalled net) (RRegister v) ports"
  by (simp add: replicate_result_iff marshalled_def marshals_def)

lemma Register_existing_name:
  "find (\<lambda>v. v_name v = name) (voters_db s) = Some v \<Longrightarrow>
   Register net name s =
     (\<lparr>success = True, message = ''Voter already registered'', reg_id = Some (v_id v)\<rparr>,
      s\<lparr>lamport_clock := lamport_clock s + 1\<rparr>)"
  by (simp add: Register_def Let_def increment_lamport_clock_def)

lemma Register_new_name:
  assumes "find (\<lambda>v. v_name v = name) (voters_db s) = None"
  shows "Register net name s =
     (\<lparr>success = False, message = ''Registration failed due to replication error'',
        reg_id = None\<rparr>,
      s\<lparr>lamport_clock := lamport_clock s + 1\<rparr>)"
proof -
  let ?nv = "\<lparr>v_id = int (length (voters_db s)) + 1, v_name = name, has_voted = False,
              vote = None\<rparr>"
  have "\<not> replicate_to_replicas (marshalled net) (RRegister ?nv) (replica_ports s)"
    by (rule marshalled_register_fails) simp
  with assms show ?thesis
    by (simp add: Register_def Let_def increment_lamport_clock_def)
qed

text \<open>
  Claim C9, at the failing input. Registering the new name \<open>Zed\<close> on the freshly
  started server, with both replicas acknowledging everything that reaches them, appends
  no record and assigns no id: the payload is the new voter dictionary, whose \<open>vote\<close>
  is \<open>None\<close>, so every delivery attempt raises while marshalling it, the appended record
  is removed again and the call returns the replication failure. The registry keeps its
  ten records and only the logical clock has moved. The claim promises a new record with
  id 11.
\<close>

theorem Register_new_name_rejected:
  "Register replicas_up ''Zed'' (init_server [8001, 8002]) =
     (\<lparr>success = False, message = ''Registration failed due to replication error'',
        reg_id = None\<rparr>,
      (init_server [8001, 8002])\<lparr>lamport_clock := 1\<rparr>)"
proof -
  have "find (\<lambda>v. v_name v = ''Zed'') (voters_db (init_server [8001, 8002])) = None"
    by (simp add: init_server_def find_name_initial)
  from Register_new_name [OF this, of replicas_up] show ?thesis
    by (simp add: init_server_def)
qed

section \<open>Session identifiers\<close>

lemma digit_char_inj: "a < 10 \<Longrightarrow> b < 10 \<Longrightarrow> digit_char a = digit_char b \<Longrightarrow> a = b"
proof -
  assume a: "a < 10" and b: "b < 10" and eq: "digit_char a = digit_char b"
  have da: "distinct ''0123456789''" by simp
  have "length ''0123456789'' = 10" by simp
  with a b eq da show "a = b"
    unfolding digit_char_def by (metis nth_eq_iff_index_eq)
qed

lemma digit_char_set: "d < 10 \<Longrightarrow> digit_char d \<in> set ''0123456789''"
  unfolding digit_char_def by (intro nth_mem) simp

lemma str_nat_nonempty: "str_nat n \<noteq> []"
  by (subst str_nat.simps) simp

lemma str_nat_digits: "set (str_nat n) \<subseteq> set ''0123456789''"
proof (induction n rule: str_nat.induct)
  case (1 n)
  show ?case
  proof (cases "n < 10")
    case True
    then show ?thesis using digit_char_set [of n] by (subst str_nat.simps) simp
  next
    case False
    have "n mod 10 < 10" by simp
    from digit_char_set [OF this] 1 [OF False] False show ?thesis
      by (subst str_nat.simps) simp
  qed
qed

lemma str_nat_length_one: "length (str_nat n) = 1 \<longleftrightarrow> n < 10"
proof (cases "n < 10")
  case True
  then show ?thesis by (subst str_nat.simps) simp
next
  case False
  have "length (str_nat (n div 10)) \<noteq> 0" using str_nat_nonempty by simp
  with False show ?thesis by (subst str_nat.simps) simp
qed

lemma str_nat_inj: "str_nat a = str_nat b \<Longrightarrow> a = b"
proof (induction a arbitrary: b rule: str_nat.induct)
  case (1 a)
  show ?case
  proof (cases "a < 10")
    case True
    then have "length (str_nat a) = 1" using str_nat_length_one [of a] by simp
    then have b: "b < 10" using "1.prems" str_nat_length_one [of b] by simp
    from True b "1.prems" have "digit_char a = digit_char b"
      by (subst (asm) (1 2) str_nat.simps) simp
    with True b show ?thesis by (rule digit_char_inj)
  next
    case False
    then have "length (str_nat a) \<noteq> 1" using str_nat_length_one [of a] by simp
    then have b: "\<not> b < 10" using "1.prems" str_nat_length_one [of b] by simp
    from False b "1.prems"
    have "str_nat (a div 10) @ [digit_char (a mod 10)] = str_nat (b div 10) @ [digit_char (b mod 10)]"
      by (subst (asm) (1 2) str_nat.simps) simp
    then have q: "str_nat (a div 10) = str_nat (b div 10)"
      and r: "digit_char (a mod 10) = digit_char (b mod 10)" by simp_all
    from "1.IH" [OF False q] have "a div 10 = b div 10" .
    moreover have "a mod 10 = b mod 10" using r by (intro digit_char_inj) simp_all
    ultimately show ?thesis by (metis div_mult_mod_eq)
  qed
qed

lemma str_int_inj: "str_int a = str_int b \<Longrightarrow> a = b"
proof -
  assume eq: "str_int a = str_int b"
  have nodash: "hd (str_nat n) \<noteq> CHR ''-''" for n
  proof -
    have "hd (str_nat n) \<in> set (str_nat n)" using str_nat_nonempty by simp
    then have "hd (str_nat n) \<in> set ''0123456789''" using str_nat_digits by blast
    then show ?thesis by auto
  qed
  show "a = b"
  proof (cases "a < 0")
    case True
    show ?thesis
    proof (cases "b < 0")
      case T2: True
      with True eq have "str_nat (nat (- a)) = str_nat (nat (- b))" by (simp add: str_int_def)
      then have "nat (- a) = nat (- b)" by (rule str_nat_inj)
      with True T2 show ?thesis by simp
    next
      case False
      with True eq have "CHR ''-'' # str_nat (nat (- a)) = str_nat (nat b)" by (simp add: str_int_def)
      then have "hd (str_nat (nat b)) = CHR ''-''" by (metis list.sel(1))
      with nodash show ?thesis by blast
    qed
  next
    case False
    show ?thesis
    proof (cases "b < 0")
      case True
      with False eq have "str_nat (nat a) = CHR ''-'' # str_nat (nat (- b))" by (simp add: str_int_def)
      then have "hd (str_nat (nat a)) = CHR ''-''" by (metis list.sel(1))
      with nodash show ?thesis by blast
    next
      case F2: False
      with False eq have "str_nat (nat a) = str_nat (nat b)" by (simp add: str_int_def)
      then have "nat a = nat b" by (rule str_nat_inj)
      with False F2 show ?thesis by simp
    qed
  qed
qed

lemma str_int_no_underscore: "CHR ''_'' \<notin> set (str_int a)"
proof -
  have "CHR ''_'' \<notin> set ''0123456789''" by simp
  then have "CHR ''_'' \<notin> set (str_nat n)" for n using str_nat_digits by blast
  then show ?thesis by (simp add: str_int_def)
qed

lemma split_at_separator:
  "c \<notin> set xs \<Longrightarrow> c \<notin> set xs' \<Longrightarrow> xs @ c # ys = xs' @ c # ys' \<Longrightarrow> xs = xs' \<and> ys = ys'"
proof (induction xs arbitrary: xs')
  case Nil
  then show ?case by (cases xs') auto
next
  case (Cons x xs)
  then show ?case by (cases xs') auto
qed

lemma make_session_id_eq_iff:
  "make_session_id i t = make_session_id j u \<longleftrightarrow> i = j \<and> py_int t = py_int u"
proof
  assume "make_session_id i t = make_session_id j u"
  then have "str_int i @ CHR ''_'' # str_int (py_int t) = str_int j @ CHR ''_'' # str_int (py_int u)"
    by (simp add: make_session_id_def)
  from split_at_separator [OF str_int_no_underscore str_int_no_underscore this]
  show "i = j \<and> py_int t = py_int u" by (auto dest: str_int_inj)
next
  assume "i = j \<and> py_int t = py_int u"
  then show "make_session_id i t = make_session_id j u" by (simp add: make_session_id_def)
qed


lemma Login_success:
  "success (fst (Login name i t t' s)) \<Longrightarrow>
   login_session_id (fst (Login name i t t' s)) = Some (make_session_id i t)"
  by (simp add: Login_def Let_def split: option.splits)

lemma find_voter_Alice: "find_voter initial_voters 1 ''Alice'' = Some 0"
  by (simp add: initial_voters_def mk_voter_def)

lemma find_voter_Bob: "find_voter initial_voters 2 ''Bob'' = Some 1"
  by (simp add: initial_voters_def mk_voter_def)

lemma Login_voters_db: "voters_db (snd (Login name i t t' s)) = voters_db s"
  by (simp add: Login_def Let_def increment_lamport_clock_def add_notification_def
      split: option.splits)

lemma Login_found:
  "find_voter (voters_db s) i name = Some k \<Longrightarrow> success (fst (Login name i t t' s))"
  by (simp add: Login_def Let_def increment_lamport_clock_def)

lemma session_1_1000: "make_session_id 1 1000 = ''session_1_1000''"
  by (simp add: make_session_id_def str_int_def py_int_def str_nat.simps digit_char_def)

text \<open>
  Claim C8 as stated fails: the identifier is built from the voter id and the clock
  truncated to whole seconds, so two successful logins by the same voter within one second
  return the same identifier.
\<close>

theorem Login_same_second_counterexample:
  "success (fst (Login ''Alice'' 1 1000 1000 (init_server [8001, 8002])))
   \<and> success (fst (Login ''Alice'' 1 (2001 / 2) (2001 / 2)
                      (snd (Login ''Alice'' 1 1000 1000 (init_server [8001, 8002])))))
   \<and> login_session_id (fst (Login ''Alice'' 1 (2001 / 2) (2001 / 2)
                      (snd (Login ''Alice'' 1 1000 1000 (init_server [8001, 8002])))))
     = login_session_id (fst (Login ''Alice'' 1 1000 1000 (init_server [8001, 8002])))"
proof -
  let ?s = "init_server [8001, 8002]"
  let ?s1 = "snd (Login ''Alice'' 1 1000 1000 ?s)"
  have db: "voters_db ?s = initial_voters" by (simp add: init_server_def)
  have a: "success (fst (Login ''Alice'' 1 1000 1000 ?s))"
    using find_voter_Alice by (intro Login_found) (simp add: db)
  have b: "success (fst (Login ''Alice'' 1 (2001 / 2) (2001 / 2) ?s1))"
    using find_voter_Alice by (intro Login_found) (simp add: Login_voters_db db)
  have "py_int (2001 / 2) = py_int 1000" by (simp add: py_int_def)
  then have "make_session_id 1 (2001 / 2) = make_session_id 1 1000"
    by (simp add: make_session_id_eq_iff)
  with a b Login_success [OF a] Login_success [OF b] show ?thesis by simp
qed

text \<open>
  Claim C8, amended. A successful \<open>Login\<close> returns the identifier
  \<open>session_<voter id>_<whole seconds of the clock>\<close>, and the identifiers returned by
  two successful logins are equal exactly when the voter ids are equal and the two clock
  readings fall in the same whole second; so they are distinct whenever the voters differ
  or the logins happen in different seconds.
\<close>

theorem Login_session_ids_distinct:
  assumes "success (fst (Login name i t t' s))"
    and "success (fst (Login name' j u u' s'))"
  shows "login_session_id (fst (Login name i t t' s)) = Some (make_session_id i t)
    \<and> login_session_id (fst (Login name' j u u' s')) = Some (make_session_id j u)
    \<and> (login_session_id (fst (Login name i t t' s)) = login_session_id (fst (Login name' j u u' s'))
          \<longleftrightarrow> i = j \<and> py_int t = py_int u)"
  using Login_success [OF assms(1)] Login_success [OF assms(2)]
  by (simp add: make_session_id_eq_iff)

theorem Login_session_ids_distinct_witness:
  "login_session_id (fst (Login ''Alice'' 1 1000 1000 (init_server [8001, 8002])))
     = Some ''session_1_1000''
   \<and> login_session_id (fst (Login ''Bob'' 2 1000 1000 (init_server [8001, 8002])))
     \<noteq> login_session_id (fst (Login ''Alice'' 1 1000 1000 (init_server [8001, 8002])))
   \<and> login_session_id (fst (Login ''Alice'' 1 1001 1001
                      (snd (Login ''Alice'' 1 1000 1000 (init_server [8001, 8002])))))
     \<noteq> login_session_id (fst (Login ''Alice'' 1 1000 1000 (init_server [8001, 8002])))"
proof -
  let ?s = "init_server [8001, 8002]"
  let ?s1 = "snd (Login ''Alice'' 1 1000 1000 ?s)"
  have db: "voters_db ?s = initial_voters" by (simp add: init_server_def)
  have a: "success (fst (Login ''Alice'' 1 1000 1000 ?s))"
    using find_voter_Alice by (intro Login_found) (simp add: db)
  have b: "success (fst (Login ''Bob'' 2 1000 1000 ?s))"
    using find_voter_Bob by (intro Login_found) (simp add: db)
  have c: "success (fst (Login ''Alice'' 1 1001 1001 ?s1))"
    using find_voter_Alice by (intro Login_found) (simp add: Login_voters_db db)
  have ne: "py_int 1001 \<noteq> py_int 1000" by (simp add: py_int_def)
  note ab = Login_session_ids_distinct [OF a b]
  from ab have "login_session_id (fst (Login ''Alice'' 1 1000 1000 ?s)) = Some (make_session_id 1 1000)"
    by (rule conjunct1)
  then have 1: "login_session_id (fst (Login ''Alice'' 1 1000 1000 ?s)) = Some ''session_1_1000''"
    by (simp only: session_1_1000)
  have "(1::int) \<noteq> 2" by simp
  with ab have 2: "login_session_id (fst (Login ''Bob'' 2 1000 1000 ?s))
              \<noteq> login_session_id (fst (Login ''Alice'' 1 1000 1000 ?s))"
    by metis
  from Login_session_ids_distinct [OF a c] ne
  have 3: "login_session_id (fst (Login ''Alice'' 1 1001 1001 ?s1))
              \<noteq> login_session_id (fst (Login ''Alice'' 1 1000 1000 ?s))"
    by metis
  from 1 2 3 show ?thesis by blast
qed


section \<open>Admission task\<close>

lemma find_voter_bound:
  "find_voter db a n = Some i \<Longrightarrow> i < length db \<and> v_id (db ! i) = a \<and> v_name (db ! i) = n"
proof (induction db arbitrary: i)
  case Nil
  then show ?case by simp
next
  case (Cons v db)
  then show ?case by (cases i) (auto split: if_splits)
qed

lemma find_voter_update:
  "i < length db \<Longrightarrow> v_id v' = v_id (db ! i) \<Longrightarrow> v_name v' = v_name (db ! i) \<Longrightarrow>
   find_voter (db[i := v']) a n = find_voter db a n"
proof (induction db arbitrary: i)
  case Nil
  then show ?case by simp
next
  case (Cons v db)
  then show ?case by (cases i) auto
qed

lemma psv_begin_resolved:
  "active_sessions s sid = Some info \<Longrightarrow>
   psv_begin (sid, cand, ts, ct) s =
     (Some info, s\<lparr>active_votes := active_votes s + 1,
                    in_progress_votes := insert (s_id info) (in_progress_votes s)\<rparr>)"
  by (auto simp: psv_begin_def Let_def insert_absorb)

lemma psv_finally_fields [simp]:
  "voters_db (psv_finally vi s) = voters_db s"
  "active_sessions (psv_finally vi s) = active_sessions s"
  "voting_active (psv_finally vi s) = voting_active s"
  "voting_deadline (psv_finally vi s) = voting_deadline s"
  "replica_ports (psv_finally vi s) = replica_ports s"
  "candidates (psv_finally vi s) = candidates s"
  "vote_queue (psv_finally vi s) = vote_queue s"
  by (simp_all add: psv_finally_def Let_def split: option.splits)

text \<open>The outcome of the body, branch by branch.\<close>

lemma psv_body_inactive:
  "\<not> voting_active s \<or> deadline_passed (voting_deadline s) ct \<Longrightarrow>
   \<not> success (fst (psv_body net (sid, cand, ts, ct) (Some info) s))
   \<and> snd (psv_body net (sid, cand, ts, ct) (Some info) s) = s"
  by (auto simp: psv_body_def failure_def)

lemma psv_body_not_found:
  "voting_active s \<Longrightarrow> \<not> deadline_passed (voting_deadline s) ct \<Longrightarrow>
   find_voter (voters_db s) (s_id info) (s_name info) = None \<Longrightarrow>
   psv_body net (sid, cand, ts, ct) (Some info) s
     = (failure ''Voter not found'', s\<lparr>lamport_clock := max (lamport_clock s) ts + 1\<rparr>)"
  by (simp add: psv_body_def update_lamport_clock_def Let_def)

lemma psv_body_already_voted:
  "voting_active s \<Longrightarrow> \<not> deadline_passed (voting_deadline s) ct \<Longrightarrow>
   find_voter (voters_db s) (s_id info) (s_name info) = Some i \<Longrightarrow>
   has_voted (voters_db s ! i) \<Longrightarrow>
   psv_body net (sid, cand, ts, ct) (Some info) s
     = (failure ''Already voted'', s\<lparr>lamport_clock := max (lamport_clock s) ts + 1\<rparr>)"
  by (simp add: psv_body_def update_lamport_clock_def Let_def)

lemma psv_body_commit:
  "voting_active s \<Longrightarrow> \<not> deadline_passed (voting_deadline s) ct \<Longrightarrow>
   find_voter (voters_db s) (s_id info) (s_name info) = Some i \<Longrightarrow>
   \<not> has_voted (voters_db s ! i) \<Longrightarrow>
   replicate_to_replicas net (RVote (v_id (voters_db s ! i)) cand ts) (replica_ports s) \<Longrightarrow>
   psv_body net (sid, cand, ts, ct) (Some info) s
     = (\<lparr>success = True, message = ''Vote recorded successfully''\<rparr>,
        add_notification (NVoted (v_name (voters_db s ! i)) cand)
          (s\<lparr>lamport_clock := max (lamport_clock s) ts + 1,
             voters_db := (voters_db s)[i := (voters_db s ! i)\<lparr>has_voted := True, vote := Some cand\<rparr>]\<rparr>))"
  by (simp add: psv_body_def update_lamport_clock_def Let_def)


lemma psv_body_success:
  assumes "success (fst (psv_body net (sid, cand, ts, ct) (Some info) s))"
  shows "\<exists>i. find_voter (voters_db s) (s_id info) (s_name info) = Some i
           \<and> voters_db (snd (psv_body net (sid, cand, ts, ct) (Some info) s))
               = (voters_db s)[i := (voters_db s ! i)\<lparr>has_voted := True, vote := Some cand\<rparr>]"
  using assms
  by (auto simp: psv_body_def update_lamport_clock_def Let_def failure_def add_notification_def
      split: if_splits option.splits)

lemma psv_body_sessions:
  "active_sessions (snd (psv_body net req vi s)) = active_sessions s"
  by (cases req) (auto simp: psv_body_def update_lamport_clock_def Let_def failure_def add_notification_def
      split: if_splits option.splits prod.splits)

lemma process_single_vote_resolved:
  "active_sessions s sid = Some info \<Longrightarrow>
   process_single_vote net (sid, cand, ts, ct) s =
     (fst (psv_body net (sid, cand, ts, ct) (Some info)
             (s\<lparr>active_votes := active_votes s + 1,
                in_progress_votes := insert (s_id info) (in_progress_votes s)\<rparr>)),
      psv_finally (Some info)
        (snd (psv_body net (sid, cand, ts, ct) (Some info)
             (s\<lparr>active_votes := active_votes s + 1,
                in_progress_votes := insert (s_id info) (in_progress_votes s)\<rparr>))))"
  by (simp add: process_single_vote_def psv_begin_resolved split: prod.splits)


lemma psv_not_found:
  assumes "active_sessions s sid = Some info"
    and "find_voter (voters_db s) (s_id info) (s_name info) = None"
  shows "\<not> success (fst (process_single_vote net (sid, cand, ts, ct) s))
    \<and> voters_db (snd (process_single_vote net (sid, cand, ts, ct) s)) = voters_db s
    \<and> (voting_active s \<and> \<not> deadline_passed (voting_deadline s) ct \<longrightarrow>
         fst (process_single_vote net (sid, cand, ts, ct) s) = failure ''Voter not found'')"
proof (cases "voting_active s \<and> \<not> deadline_passed (voting_deadline s) ct")
  case True
  let ?s0 = "s\<lparr>active_votes := active_votes s + 1,
                in_progress_votes := insert (s_id info) (in_progress_votes s)\<rparr>"
  have "psv_body net (sid, cand, ts, ct) (Some info) ?s0
     = (failure ''Voter not found'', ?s0\<lparr>lamport_clock := max (lamport_clock ?s0) ts + 1\<rparr>)"
    using True assms(2) by (intro psv_body_not_found) simp_all
  then show ?thesis
    using True by (simp add: process_single_vote_resolved [OF assms(1)] failure_def)
next
  case False
  let ?s0 = "s\<lparr>active_votes := active_votes s + 1,
                in_progress_votes := insert (s_id info) (in_progress_votes s)\<rparr>"
  have "\<not> voting_active ?s0 \<or> deadline_passed (voting_deadline ?s0) ct" using False by simp
  from psv_body_inactive [OF this, of net sid cand ts info] False show ?thesis
    by (auto simp: process_single_vote_resolved [OF assms(1)])
qed

lemma psv_already_voted:
  assumes "active_sessions s sid = Some info"
    and "find_voter (voters_db s) (s_id info) (s_name info) = Some i"
    and "has_voted (voters_db s ! i)"
  shows "\<not> success (fst (process_single_vote net (sid, cand, ts, ct) s))
    \<and> voters_db (snd (process_single_vote net (sid, cand, ts, ct) s)) = voters_db s
    \<and> (voting_active s \<and> \<not> deadline_passed (voting_deadline s) ct \<longrightarrow>
         fst (process_single_vote net (sid, cand, ts, ct) s) = failure ''Already voted'')"
proof (cases "voting_active s \<and> \<not> deadline_passed (voting_deadline s) ct")
  case True
  let ?s0 = "s\<lparr>active_votes := active_votes s + 1,
                in_progress_votes := insert (s_id info) (in_progress_votes s)\<rparr>"
  have "psv_body net (sid, cand, ts, ct) (Some info) ?s0
     = (failure ''Already voted'', ?s0\<lparr>lamport_clock := max (lamport_clock ?s0) ts + 1\<rparr>)"
    using True assms(2,3) by (intro psv_body_already_voted) simp_all
  then show ?thesis
    using True by (simp add: process_single_vote_resolved [OF assms(1)] failure_def)
next
  case False
  let ?s0 = "s\<lparr>active_votes := active_votes s + 1,
                in_progress_votes := insert (s_id info) (in_progress_votes s)\<rparr>"
  have "\<not> voting_active ?s0 \<or> deadline_passed (voting_deadline ?s0) ct" using False by simp
  from psv_body_inactive [OF this, of net sid cand ts info] False show ?thesis
    by (auto simp: process_single_vote_resolved [OF assms(1)])
qed

lemma psv_success_marks:
  assumes "active_sessions s sid = Some info"
    and "success (fst (process_single_vote net (sid, cand, ts, ct) s))"
  shows "\<exists>i. find_voter (voters_db (snd (process_single_vote net (sid, cand, ts, ct) s)))
                (s_id info) (s_name info) = Some i
           \<and> has_voted (voters_db (snd (process_single_vote net (sid, cand, ts, ct) s)) ! i)"
proof -
  let ?s0 = "s\<lparr>active_votes := active_votes s + 1,
                in_progress_votes := insert (s_id info) (in_progress_votes s)\<rparr>"
  from assms have "success (fst (psv_body net (sid, cand, ts, ct) (Some info) ?s0))"
    by (simp add: process_single_vote_resolved)
  from psv_body_success [OF this] obtain i where
    i: "find_voter (voters_db s) (s_id info) (s_name info) = Some i"
    and db: "voters_db (snd (psv_body net (sid, cand, ts, ct) (Some info) ?s0))
               = (voters_db s)[i := (voters_db s ! i)\<lparr>has_voted := True, vote := Some cand\<rparr>]"
    by auto
  from find_voter_bound [OF i] have len: "i < length (voters_db s)" by simp
  have "find_voter ((voters_db s)[i := (voters_db s ! i)\<lparr>has_voted := True, vote := Some cand\<rparr>])
          (s_id info) (s_name info) = Some i"
    using len i by (simp add: find_voter_update)
  then show ?thesis
    using len db by (simp add: process_single_vote_resolved [OF assms(1)])
qed

lemma psv_body_sessions_eq:
  "psv_body net req vi s = (r, s') \<Longrightarrow> active_sessions s' = active_sessions s"
  using psv_body_sessions [of net req vi s] by simp

lemma psv_sessions:
  "active_sessions (snd (process_single_vote net req s)) = active_sessions s"
  by (cases req)
     (auto simp: process_single_vote_def psv_begin_def Let_def
        split: prod.splits option.splits dest: psv_body_sessions_eq)

lemma psv_body_config:
  assumes "psv_body net req vi s = (r, s')"
  shows "voting_active s' = voting_active s" "voting_deadline s' = voting_deadline s"
    "replica_ports s' = replica_ports s" "candidates s' = candidates s"
    "vote_queue s' = vote_queue s" "length (voters_db s') = length (voters_db s)"
  using assms
  by (cases req; auto simp: psv_body_def update_lamport_clock_def Let_def failure_def
        add_notification_def split: if_splits option.splits)+

lemma psv_config:
  "voting_active (snd (process_single_vote net req s)) = voting_active s"
  "voting_deadline (snd (process_single_vote net req s)) = voting_deadline s"
  "replica_ports (snd (process_single_vote net req s)) = replica_ports s"
  by (cases req; auto simp: process_single_vote_def psv_begin_def Let_def
        split: prod.splits option.splits dest: psv_body_config)+

lemma psv_commit:
  assumes "active_sessions s sid = Some info"
    and "voting_active s" and "\<not> deadline_passed (voting_deadline s) ct"
    and "find_voter (voters_db s) (s_id info) (s_name info) = Some i"
    and "\<not> has_voted (voters_db s ! i)"
    and "replicate_to_replicas net (RVote (v_id (voters_db s ! i)) cand ts) (replica_ports s)"
  shows "fst (process_single_vote net (sid, cand, ts, ct) s)
           = \<lparr>success = True, message = ''Vote recorded successfully''\<rparr>"
    and "voters_db (snd (process_single_vote net (sid, cand, ts, ct) s))
           = (voters_db s)[i := (voters_db s ! i)\<lparr>has_voted := True, vote := Some cand\<rparr>]"
proof -
  let ?s0 = "s\<lparr>active_votes := active_votes s + 1,
                in_progress_votes := insert (s_id info) (in_progress_votes s)\<rparr>"
  have "psv_body net (sid, cand, ts, ct) (Some info) ?s0
     = (\<lparr>success = True, message = ''Vote recorded successfully''\<rparr>,
        add_notification (NVoted (v_name (voters_db ?s0 ! i)) cand)
          (?s0\<lparr>lamport_clock := max (lamport_clock ?s0) ts + 1,
             voters_db := (voters_db ?s0)[i := (voters_db ?s0 ! i)\<lparr>has_voted := True, vote := Some cand\<rparr>]\<rparr>))"
    using assms(2-6) by (intro psv_body_commit) simp_all
  then show "fst (process_single_vote net (sid, cand, ts, ct) s)
           = \<lparr>success = True, message = ''Vote recorded successfully''\<rparr>"
    and "voters_db (snd (process_single_vote net (sid, cand, ts, ct) s))
           = (voters_db s)[i := (voters_db s ! i)\<lparr>has_voted := True, vote := Some cand\<rparr>]"
    by (simp_all add: process_single_vote_resolved [OF assms(1)] add_notification_def)
qed


lemma demo_server_fields:
  "active_sessions demo_server ''session_1_1000'' = Some alice_session"
  "voting_active demo_server"
  "voting_deadline demo_server = None"
  "voters_db demo_server = initial_voters"
  "replica_ports demo_server = [8001, 8002]"
  by (simp_all add: demo_server_def StartVote_def Login_def Let_def increment_lamport_clock_def
      add_notification_def init_server_def find_voter_Alice session_1_1000 alice_session_def)

lemma find_voter_Ghost: "find_voter initial_voters 99 ''Ghost'' = None"
  by (simp add: initial_voters_def mk_voter_def)

lemma initial_voters_0: "initial_voters ! 0 = mk_voter 1 ''Alice''"
  by (simp add: initial_voters_def)

text \<open>
  Claim C2. Let the session of a vote request resolve. If no record matches the session's
  id and name, the admission fails, with \<open>Voter not found\<close> once the activity and
  deadline checks have passed, and the registry is unchanged. If the located voter has
  already voted, it fails, with \<open>Already voted\<close> once those checks have passed, and
  the registry is unchanged. The lookup, the check and the commit are one step under
  \<open>db_lock\<close>, so of two admissions for the same voter identity, run one after the
  other in either candidate, at most one succeeds.
\<close>

theorem admission_check_then_set:
  assumes "active_sessions s sid = Some info"
  shows
  "(find_voter (voters_db s) (s_id info) (s_name info) = None \<longrightarrow>
      \<not> success (fst (process_single_vote net (sid, cand, ts, ct) s))
      \<and> voters_db (snd (process_single_vote net (sid, cand, ts, ct) s)) = voters_db s
      \<and> (voting_active s \<and> \<not> deadline_passed (voting_deadline s) ct \<longrightarrow>
           fst (process_single_vote net (sid, cand, ts, ct) s) = failure ''Voter not found''))
   \<and> (\<forall>i. find_voter (voters_db s) (s_id info) (s_name info) = Some i
            \<and> has_voted (voters_db s ! i) \<longrightarrow>
      \<not> success (fst (process_single_vote net (sid, cand, ts, ct) s))
      \<and> voters_db (snd (process_single_vote net (sid, cand, ts, ct) s)) = voters_db s
      \<and> (voting_active s \<and> \<not> deadline_passed (voting_deadline s) ct \<longrightarrow>
           fst (process_single_vote net (sid, cand, ts, ct) s) = failure ''Already voted''))
   \<and> (\<forall>net' sid' cand' ts' ct' info'.
        active_sessions s sid' = Some info' \<and> s_id info' = s_id info \<and> s_name info' = s_name info
        \<longrightarrow> \<not> (success (fst (process_single_vote net (sid, cand, ts, ct) s))
                 \<and> success (fst (process_single_vote net' (sid', cand', ts', ct')
                                   (snd (process_single_vote net (sid, cand, ts, ct) s))))))"
proof (intro conjI allI impI)
  assume "find_voter (voters_db s) (s_id info) (s_name info) = None"
  from psv_not_found [OF assms this, of net cand ts ct]
  show "\<not> success (fst (process_single_vote net (sid, cand, ts, ct) s))"
    and "voters_db (snd (process_single_vote net (sid, cand, ts, ct) s)) = voters_db s"
    by simp_all
next
  assume "find_voter (voters_db s) (s_id info) (s_name info) = None"
    and "voting_active s \<and> \<not> deadline_passed (voting_deadline s) ct"
  with psv_not_found [OF assms, of net cand ts ct]
  show "fst (process_single_vote net (sid, cand, ts, ct) s) = failure ''Voter not found''"
    by simp
next
  fix i
  assume "find_voter (voters_db s) (s_id info) (s_name info) = Some i \<and> has_voted (voters_db s ! i)"
  then have a: "find_voter (voters_db s) (s_id info) (s_name info) = Some i"
    and b: "has_voted (voters_db s ! i)" by simp_all
  from psv_already_voted [OF assms a b, of net cand ts ct]
  show "\<not> success (fst (process_single_vote net (sid, cand, ts, ct) s))"
    and "voters_db (snd (process_single_vote net (sid, cand, ts, ct) s)) = voters_db s"
    by simp_all
next
  fix i
  assume "find_voter (voters_db s) (s_id info) (s_name info) = Some i \<and> has_voted (voters_db s ! i)"
    and act: "voting_active s \<and> \<not> deadline_passed (voting_deadline s) ct"
  then have a: "find_voter (voters_db s) (s_id info) (s_name info) = Some i"
    and b: "has_voted (voters_db s ! i)" by simp_all
  from psv_already_voted [OF assms a b, of net cand ts ct] act
  show "fst (process_single_vote net (sid, cand, ts, ct) s) = failure ''Already voted''"
    by simp
next
  fix net' sid' cand' ts' ct' info'
  assume h: "active_sessions s sid' = Some info' \<and> s_id info' = s_id info \<and> s_name info' = s_name info"
  let ?s1 = "snd (process_single_vote net (sid, cand, ts, ct) s)"
  show "\<not> (success (fst (process_single_vote net (sid, cand, ts, ct) s))
          \<and> success (fst (process_single_vote net' (sid', cand', ts', ct') ?s1)))"
  proof
    assume both: "success (fst (process_single_vote net (sid, cand, ts, ct) s))
          \<and> success (fst (process_single_vote net' (sid', cand', ts', ct') ?s1))"
    from psv_success_marks [OF assms conjunct1 [OF both]] obtain i where
      i: "find_voter (voters_db ?s1) (s_id info) (s_name info) = Some i"
      and v: "has_voted (voters_db ?s1 ! i)" by blast
    have sess': "active_sessions ?s1 sid' = Some info'" using h by (simp add: psv_sessions)
    from i h have i': "find_voter (voters_db ?s1) (s_id info') (s_name info') = Some i" by simp
    from psv_already_voted [OF sess' i' v, of net' cand' ts' ct'] both show False by simp
  qed
qed


theorem admission_check_then_set_witness:
  "fst (process_single_vote replicas_up (''session_1_1000'', ''Candidate B'', 2, 1001)
          (snd (process_single_vote replicas_up (''session_1_1000'', ''Candidate A'', 1, 1000)
                  demo_server)))
     = failure ''Already voted''
   \<and> voters_db (snd (process_single_vote replicas_up (''session_1_1000'', ''Candidate B'', 2, 1001)
          (snd (process_single_vote replicas_up (''session_1_1000'', ''Candidate A'', 1, 1000)
                  demo_server))))
     = voters_db (snd (process_single_vote replicas_up (''session_1_1000'', ''Candidate A'', 1, 1000)
                  demo_server))
   \<and> fst (process_single_vote replicas_up (''ghost'', ''Candidate A'', 1, 1000) ghost_server)
     = failure ''Voter not found''
   \<and> voters_db (snd (process_single_vote replicas_up (''ghost'', ''Candidate A'', 1, 1000) ghost_server))
     = voters_db ghost_server"
proof -
  let ?reqA = "(''session_1_1000'', ''Candidate A'', 1 :: int, 1000 :: real)"
  let ?s1 = "snd (process_single_vote replicas_up ?reqA demo_server)"
  have dl: "\<not> deadline_passed (voting_deadline demo_server) 1000"
    by (simp add: demo_server_fields deadline_passed_def)
  have found: "find_voter (voters_db demo_server) (s_id alice_session) (s_name alice_session) = Some 0"
    by (simp add: demo_server_fields alice_session_def find_voter_Alice)
  have fresh: "\<not> has_voted (voters_db demo_server ! 0)"
    by (simp add: demo_server_fields initial_voters_0 mk_voter_def)
  have ack: "replicate_to_replicas replicas_up
                  (RVote (v_id (voters_db demo_server ! 0)) ''Candidate A'' 1)
                  (replica_ports demo_server)"
    by (simp add: demo_server_fields)
  have db1: "voters_db ?s1
      = (voters_db demo_server)[0 := (voters_db demo_server ! 0)\<lparr>has_voted := True, vote := Some ''Candidate A''\<rparr>]"
    by (rule psv_commit(2) [OF demo_server_fields(1) demo_server_fields(2) dl found fresh ack])
  have len: "0 < length (voters_db demo_server)"
    by (simp add: demo_server_fields initial_voters_def)
  have sess1: "active_sessions ?s1 ''session_1_1000'' = Some alice_session"
    by (simp add: psv_sessions demo_server_fields)
  have found1: "find_voter (voters_db ?s1) (s_id alice_session) (s_name alice_session) = Some 0"
    using found len by (simp add: db1 find_voter_update)
  have voted1: "has_voted (voters_db ?s1 ! 0)" using len by (simp add: db1)
  have act1: "voting_active ?s1 \<and> \<not> deadline_passed (voting_deadline ?s1) 1001"
    by (simp add: psv_config demo_server_fields deadline_passed_def)
  have gs: "active_sessions ghost_server ''ghost''
              = Some \<lparr>s_id = 99, s_name = ''Ghost'', login_time = 1000\<rparr>"
    by (simp add: ghost_server_def)
  have gnf: "find_voter (voters_db ghost_server)
               (s_id \<lparr>s_id = 99, s_name = ''Ghost'', login_time = 1000\<rparr>)
               (s_name \<lparr>s_id = 99, s_name = ''Ghost'', login_time = 1000\<rparr>) = None"
    by (simp add: ghost_server_def demo_server_fields find_voter_Ghost)
  have gact: "voting_active ghost_server \<and> \<not> deadline_passed (voting_deadline ghost_server) 1000"
    by (simp add: ghost_server_def demo_server_fields deadline_passed_def)
  from admission_check_then_set [OF sess1, of replicas_up "''Candidate B''" 2 1001]
    found1 voted1 act1
  have 1: "fst (process_single_vote replicas_up (''session_1_1000'', ''Candidate B'', 2, 1001) ?s1)
             = failure ''Already voted''"
    and 2: "voters_db (snd (process_single_vote replicas_up
                (''session_1_1000'', ''Candidate B'', 2, 1001) ?s1)) = voters_db ?s1"
    by blast+
  from admission_check_then_set [OF gs, of replicas_up "''Candidate A''" 1 1000] gnf gact
  have 3: "fst (process_single_vote replicas_up (''ghost'', ''Candidate A'', 1, 1000) ghost_server)
             = failure ''Voter not found''"
    and 4: "voters_db (snd (process_single_vote replicas_up (''ghost'', ''Candidate A'', 1, 1000)
                ghost_server)) = voters_db ghost_server"
    by blast+
  from 1 2 3 4 show ?thesis by blast
qed





section \<open>Invariants of the reachable configurations\<close>

lemma entry_request_tuple [simp]: "entry_request (t, v, n, r) = r"
  by (simp add: entry_request_def)

lemma set_heappush: "set (heappush h x) = insert x (set h)"
proof -
  have "set_mset (mset (heappush h x)) = set_mset (add_mset x (mset h))"
    by (simp only: mset_heappush)
  then show ?thesis by simp
qed

lemma heappop_facts:
  assumes "is_heap h" "heappop h = Some (e, h')"
  shows "is_heap h'" "mset h = add_mset e (mset h')" "e \<in> set h" "set h' \<subseteq> set h"
    "\<forall>x \<in> set h. e \<le> x"
proof -
  from assms(2) have ne: "h \<noteq> []" by (auto simp: heappop_def split: if_splits)
  from heappop_Some [OF assms(1) ne] assms(2)
  have e: "e = h ! 0" and h: "is_heap h'" and m: "mset h = add_mset (h ! 0) (mset h')" by auto
  show "is_heap h'" by fact
  show ms: "mset h = add_mset e (mset h')" using m e by simp
  have "set_mset (mset h) = set_mset (add_mset e (mset h'))" by (simp only: ms)
  then have s: "set h = insert e (set h')" by simp
  then show "e \<in> set h" "set h' \<subseteq> set h" by auto
  show "\<forall>x \<in> set h. e \<le> x"
  proof
    fix x assume "x \<in> set h"
    then obtain i where "i < length h" "h ! i = x" by (auto simp: in_set_conv_nth)
    with is_heap_min [OF assms(1), of i] e show "e \<le> x" by simp
  qed
qed

lemma ballots_valid_update:
  assumes "ballots_valid s"
    and "has_voted v \<longrightarrow> (\<exists>x. vote v = Some x \<and> x \<in> set (candidates s))"
  shows "ballots_valid (s\<lparr>voters_db := (voters_db s)[i := v]\<rparr>)"
proof -
  have "set ((voters_db s)[i := v]) \<subseteq> insert v (set (voters_db s))"
    by (rule set_update_subset_insert)
  with assms show ?thesis unfolding ballots_valid_def by auto
qed

lemma server_inv_init: "server_inv (init_server ports)"
  by (simp add: server_inv_def ballots_valid_def init_server_def initial_voters_def mk_voter_def
      is_heap_Nil)

lemma server_inv_Register: "server_inv s \<Longrightarrow> server_inv (snd (Register net name s))"
  by (auto simp: server_inv_def ballots_valid_def Register_def Let_def increment_lamport_clock_def
      add_notification_def split: option.splits)

lemma server_inv_Login: "server_inv s \<Longrightarrow> server_inv (snd (Login name i t t' s))"
  by (auto simp: server_inv_def ballots_valid_def Login_def Let_def increment_lamport_clock_def
      add_notification_def split: option.splits)

lemma server_inv_Vote: "server_inv s \<Longrightarrow> server_inv (snd (Vote sid cand ts ct s))"
  by (auto simp: server_inv_def ballots_valid_def Vote_def Let_def increment_lamport_clock_def
      add_notification_def set_heappush is_heap_heappush request_candidate_def
      split: option.splits)

lemma server_inv_admin:
  "server_inv s \<Longrightarrow> server_inv (snd (SetTimer t b s))"
  "server_inv s \<Longrightarrow> server_inv (snd (StartVote s))"
  "server_inv s \<Longrightarrow> server_inv (snd (StopVote s))"
  "server_inv s \<Longrightarrow> server_inv (snd (PublishResults s))"
  by (auto simp: server_inv_def ballots_valid_def SetTimer_def StartVote_def StopVote_def
      PublishResults_def add_notification_def Let_def)

lemma candidates_ops [simp]:
  "candidates (snd (Register net name s)) = candidates s"
  "candidates (snd (Login name i t t' s)) = candidates s"
  "candidates (snd (Vote sid cand ts ct s)) = candidates s"
  "candidates (snd (SetTimer t b s)) = candidates s"
  "candidates (snd (StartVote s)) = candidates s"
  "candidates (snd (StopVote s)) = candidates s"
  "candidates (snd (PublishResults s)) = candidates s"
  by (auto simp: Register_def Login_def Vote_def SetTimer_def StartVote_def StopVote_def
      PublishResults_def add_notification_def Let_def increment_lamport_clock_def
      split: option.splits)

lemma pass_inv:
  assumes "server_inv s" "process_vote_queue_pass s = (r, s')"
  shows "server_inv s'" "candidates s' = candidates s"
    "\<forall>req. r = Some req \<longrightarrow> request_candidate req \<in> set (candidates s)"
proof -
  from assms(1) have bv: "ballots_valid s" and hp: "is_heap (vote_queue s)"
    and qc: "\<forall>e \<in> set (vote_queue s). request_candidate (entry_request e) \<in> set (candidates s)"
    by (simp_all add: server_inv_def)
  have "server_inv s' \<and> candidates s' = candidates s
        \<and> (\<forall>req. r = Some req \<longrightarrow> request_candidate req \<in> set (candidates s))"
  proof (cases "active_votes s < max_concurrent_votes s \<and> vote_queue s \<noteq> []")
    case False
    with assms show ?thesis by (auto simp: process_vote_queue_pass_def split: if_splits)
  next
    case True
    then have ne: "vote_queue s \<noteq> []" by simp
    from heappop_Some [OF hp ne] obtain q where
      pop: "heappop (vote_queue s) = Some (vote_queue s ! 0, q)" by blast
    let ?e = "vote_queue s ! 0"
    note f = heappop_facts [OF hp pop]
    have ec: "request_candidate (entry_request ?e) \<in> set (candidates s)" using f(3) qc by blast
    have qc': "\<forall>e \<in> set q. request_candidate (entry_request e) \<in> set (candidates s)"
      using f(4) qc by blast
    let ?req = "entry_request ?e"
    let ?s1 = "s\<lparr>vote_queue := q\<rparr>"
    have inv1: "server_inv ?s1"
      using bv f(1) qc' by (simp add: server_inv_def ballots_valid_def)
    show ?thesis
    proof (cases "active_sessions s (fst ?req)")
      case None
      with assms(2) True pop have "r = None" "s' = add_notification (NDropped (fst ?req)) ?s1"
        by (simp_all add: process_vote_queue_pass_def Let_def)
      with inv1 show ?thesis
        by (simp add: server_inv_def ballots_valid_def add_notification_def)
    next
      case (Some vi)
      show ?thesis
      proof (cases "s_id vi \<in> in_progress_votes s")
        case busy: True
        with Some assms(2) True pop have "r = None"
          "s' = ?s1\<lparr>vote_queue := heappush q (fst (snd (snd ?req)), s_id vi, vote_counter s, ?req),
                       vote_counter := vote_counter s + 1\<rparr>"
          by (simp_all add: process_vote_queue_pass_def Let_def)
        with inv1 ec show ?thesis
          by (simp add: server_inv_def ballots_valid_def set_heappush is_heap_heappush)
      next
        case free: False
        with Some assms(2) True pop have "r = Some ?req"
          "s' = ?s1\<lparr>in_progress_votes := insert (s_id vi) (in_progress_votes s)\<rparr>"
          by (simp_all add: process_vote_queue_pass_def Let_def)
        with inv1 ec show ?thesis
          by (simp add: server_inv_def ballots_valid_def)
      qed
    qed
  qed
  then show "server_inv s'" "candidates s' = candidates s"
    "\<forall>req. r = Some req \<longrightarrow> request_candidate req \<in> set (candidates s)" by simp_all
qed

lemma psv_begin_inv:
  assumes "server_inv s" "psv_begin req s = (vi, s')"
  shows "server_inv s'" "candidates s' = candidates s"
  using assms
  by (cases req; auto simp: psv_begin_def Let_def server_inv_def ballots_valid_def
        split: option.splits if_splits)+

lemma psv_finally_inv: "server_inv s \<Longrightarrow> server_inv (psv_finally vi s)"
  by (simp add: server_inv_def ballots_valid_def)

lemma psv_body_inv:
  assumes "server_inv s" "request_candidate req \<in> set (candidates s)"
    "psv_body net req vi s = (r, s')"
  shows "server_inv s'"
proof -
  obtain sid cand ts ct where req: "req = (sid, cand, ts, ct)" by (cases req)
  from assms(2) req have cand: "cand \<in> set (candidates s)" by (simp add: request_candidate_def)
  from assms(1) have bv: "ballots_valid s" and hp: "is_heap (vote_queue s)"
    and qc: "\<forall>e \<in> set (vote_queue s). request_candidate (entry_request e) \<in> set (candidates s)"
    by (simp_all add: server_inv_def)
  have cfg: "candidates s' = candidates s" "vote_queue s' = vote_queue s"
    using psv_body_config [OF assms(3)] by simp_all
  have "ballots_valid s'"
  proof -
    let ?s1 = "s\<lparr>lamport_clock := max (lamport_clock s) ts + 1\<rparr>"
    have bv1: "ballots_valid ?s1" using bv by (simp add: ballots_valid_def)
    have up: "ballots_valid (?s1\<lparr>voters_db := (voters_db ?s1)[i := v]\<rparr>)"
      if "has_voted v \<longrightarrow> (\<exists>x. vote v = Some x \<and> x \<in> set (candidates ?s1))" for i v
      using bv1 that by (rule ballots_valid_update)
    have c: "ballots_valid (?s1\<lparr>voters_db := (voters_db s)[i := v\<lparr>has_voted := True, vote := Some cand\<rparr>]\<rparr>)" for i v
      using up [of "v\<lparr>has_voted := True, vote := Some cand\<rparr>" i] cand by simp
    have d: "ballots_valid (?s1\<lparr>voters_db := (voters_db s)[i := v\<lparr>has_voted := False, vote := None\<rparr>]\<rparr>)" for i v
      using up [of "v\<lparr>has_voted := False, vote := None\<rparr>" i] by simp
    have c': "ballots_valid (add_notification m (?s1\<lparr>voters_db := (voters_db s)[i := v\<lparr>has_voted := True, vote := Some cand\<rparr>]\<rparr>))" for i v m
      using c [of i v] by (simp add: ballots_valid_def add_notification_def)
    show ?thesis
      using assms(3) bv bv1 c' d unfolding req
      by (auto simp: psv_body_def update_lamport_clock_def Let_def failure_def
          split: option.splits if_splits)
  qed
  with hp qc cfg show ?thesis by (simp add: server_inv_def)
qed

lemma config_inv_fire: "config_inv c \<Longrightarrow> config_inv (fire e c)"
proof -
  assume inv: "config_inv c"
  then have si: "server_inv (srv c)"
    and ti: "\<forall>t \<in> set (tasks c). request_candidate (fst t) \<in> set (candidates (srv c))"
    by (simp_all add: config_inv_def)
  show ?thesis
  proof (cases e)
    case (ERegister net name)
    with si ti show ?thesis by (simp add: config_inv_def server_inv_Register)
  next
    case (ELogin name i t t')
    with si ti show ?thesis by (simp add: config_inv_def server_inv_Login)
  next
    case (EVote sid cand ts ct)
    with si ti show ?thesis by (simp add: config_inv_def server_inv_Vote)
  next
    case (ESetTimer t b)
    with si ti show ?thesis by (simp add: config_inv_def server_inv_admin)
  next
    case EStartVote
    with si ti show ?thesis by (simp add: config_inv_def server_inv_admin)
  next
    case EStopVote
    with si ti show ?thesis by (simp add: config_inv_def server_inv_admin)
  next
    case EPublishResults
    with si ti show ?thesis by (simp add: config_inv_def server_inv_admin)
  next
    case ESchedule
    obtain r s' where p: "process_vote_queue_pass (srv c) = (r, s')"
      by (cases "process_vote_queue_pass (srv c)")
    note f = pass_inv [OF si p]
    show ?thesis
      using ESchedule p f ti by (cases r) (auto simp: config_inv_def)
  next
    case (ETaskBegin k)
    show ?thesis
    proof (cases "k < length (tasks c)")
      case False
      with ETaskBegin inv show ?thesis by simp
    next
      case True
      obtain req ph where t: "tasks c ! k = (req, ph)" by (cases "tasks c ! k")
      obtain vi s' where b: "psv_begin req (srv c) = (vi, s')" by (cases "psv_begin req (srv c)")
      note f = psv_begin_inv [OF si b]
      have rc: "request_candidate req \<in> set (candidates (srv c))"
        using ti True t by (metis fst_conv nth_mem)
      have "set ((tasks c)[k := (req, Running vi)]) \<subseteq> insert (req, Running vi) (set (tasks c))"
        by (rule set_update_subset_insert)
      with ti rc have "\<forall>t \<in> set ((tasks c)[k := (req, Running vi)]).
          request_candidate (fst t) \<in> set (candidates (srv c))" by auto
      with ETaskBegin True t b f inv show ?thesis
        by (cases ph) (auto simp: config_inv_def)
    qed
  next
    case (ETaskFinish k net)
    show ?thesis
    proof (cases "k < length (tasks c)")
      case False
      with ETaskFinish inv show ?thesis by simp
    next
      case True
      obtain req ph where t: "tasks c ! k = (req, ph)" by (cases "tasks c ! k")
      have rc: "request_candidate req \<in> set (candidates (srv c))"
        using ti True t by (metis fst_conv nth_mem)
      show ?thesis
      proof (cases ph)
        case Spawned
        with ETaskFinish True t inv show ?thesis by simp
      next
        case (Running vi)
        obtain r s' where b: "psv_body net req vi (srv c) = (r, s')"
          by (cases "psv_body net req vi (srv c)")
        have s': "server_inv s'" using si rc b by (rule psv_body_inv)
        have cs: "candidates s' = candidates (srv c)" using psv_body_config [OF b] by simp
        have "set (take k (tasks c) @ drop (Suc k) (tasks c)) \<subseteq> set (tasks c)"
          using set_take_subset [of k "tasks c"] set_drop_subset [of "Suc k" "tasks c"] by auto
        with ti have "\<forall>t \<in> set (take k (tasks c) @ drop (Suc k) (tasks c)).
            request_candidate (fst t) \<in> set (candidates (srv c))" by blast
        with ETaskFinish True t Running b s' cs show ?thesis
          by (simp add: config_inv_def psv_finally_inv)
      qed
    qed
  qed
qed

lemma config_inv_init: "config_inv (init_config ports)"
  by (simp add: config_inv_def init_config_def server_inv_init)

lemma reachable_inv: "reachable ports c \<Longrightarrow> config_inv c"
  by (induction rule: reachable.induct) (simp_all add: config_inv_init config_inv_fire)


lemma reachable_run: "reachable ports c \<Longrightarrow> reachable ports (run es c)"
proof (induction es arbitrary: c)
  case Nil
  then show ?case by (simp add: run_def)
next
  case (Cons e es)
  have "reachable ports (fire e c)" using Cons.prems by (rule reachable_fire)
  from Cons.IH [OF this] show ?case by (simp add: run_def)
qed

lemma fire_candidates:
  assumes "config_inv c"
  shows "candidates (srv (fire e c)) = candidates (srv c)"
proof -
  from assms have si: "server_inv (srv c)" by (simp add: config_inv_def)
  show ?thesis
  proof (cases e)
    case ESchedule
    obtain r s' where p: "process_vote_queue_pass (srv c) = (r, s')"
      by (cases "process_vote_queue_pass (srv c)")
    from pass_inv(2) [OF si p] ESchedule p show ?thesis by (cases r) simp_all
  next
    case (ETaskBegin k)
    show ?thesis
    proof (cases "k < length (tasks c)")
      case False
      with ETaskBegin show ?thesis by simp
    next
      case True
      obtain req ph where t: "tasks c ! k = (req, ph)" by (cases "tasks c ! k")
      obtain vi s' where b: "psv_begin req (srv c) = (vi, s')" by (cases "psv_begin req (srv c)")
      from psv_begin_inv(2) [OF si b] ETaskBegin True t b show ?thesis by (cases ph) simp_all
    qed
  next
    case (ETaskFinish k net)
    show ?thesis
    proof (cases "k < length (tasks c)")
      case False
      with ETaskFinish show ?thesis by simp
    next
      case True
      obtain req ph where t: "tasks c ! k = (req, ph)" by (cases "tasks c ! k")
      show ?thesis
      proof (cases ph)
        case Spawned
        with ETaskFinish True t show ?thesis by simp
      next
        case (Running vi)
        obtain r s' where b: "psv_body net req vi (srv c) = (r, s')"
          by (cases "psv_body net req vi (srv c)")
        from psv_body_config(4) [OF b] ETaskFinish True t Running b show ?thesis by simp
      qed
    qed
  qed simp_all
qed

lemma reachable_candidates: "reachable ports c \<Longrightarrow> candidates (srv c) = initial_candidates"
proof (induction rule: reachable.induct)
  case reachable_init
  show ?case by (simp add: init_config_def init_server_def)
next
  case (reachable_fire c e)
  from reachable_inv [OF reachable_fire.hyps] have "config_inv c" .
  from fire_candidates [OF this, of e] reachable_fire.IH show ?case by simp
qed

section \<open>Order of admission\<close>





section \<open>Ballot invariant\<close>

lemma voted_reachable: "reachable [8001, 8002] voted_config"
  unfolding voted_config_def by (intro reachable_run reachable_init)

text \<open>
  Claim C7. In every reachable configuration, observed between the lock-protected steps
  of the server, the candidate list is the fixed list the server starts with, and every
  voter record with \<open>has_voted\<close> true holds a candidate of that list; and whichever
  step comes next (a registration, a login, the submission of a vote with its candidate
  check, a scheduler pass, the start of an admission thread, or its commit or rollback),
  the registry satisfies the invariant after it.
\<close>

theorem ballot_names_listed_candidate:
  assumes "reachable ports c"
  shows "candidates (srv c) = initial_candidates
    \<and> (\<forall>v \<in> set (voters_db (srv c)).
          has_voted v \<longrightarrow> (\<exists>x. vote v = Some x \<and> x \<in> set initial_candidates))
    \<and> (\<forall>e. ballots_valid (srv (fire e c)))"
proof -
  from reachable_inv [OF assms] have bv: "ballots_valid (srv c)" by (simp add: config_inv_def server_inv_def)
  have cs: "candidates (srv c) = initial_candidates" using assms by (rule reachable_candidates)
  have "ballots_valid (srv (fire e c))" for e
    using reachable_inv [OF reachable_fire [OF assms, of e]] by (simp add: config_inv_def server_inv_def)
  with bv cs show ?thesis by (simp add: ballots_valid_def)
qed


theorem ballot_names_listed_candidate_witness:
  "has_voted (voters_db (srv voted_config) ! 0)
   \<and> (\<exists>x. vote (voters_db (srv voted_config) ! 0) = Some x \<and> x \<in> set initial_candidates)"
proof -
  have len: "0 < length (voters_db (srv voted_config))" by code_simp
  have hv: "has_voted (voters_db (srv voted_config) ! 0)" by code_simp
  from len have "voters_db (srv voted_config) ! 0 \<in> set (voters_db (srv voted_config))"
    by (rule nth_mem)
  with ballot_names_listed_candidate [OF voted_reachable] hv show ?thesis by blast
qed

section \<open>Concurrency budget\<close>

lemma five_reachable: "reachable [8001, 8002] five_config"
  unfolding five_config_def by (intro reachable_run reachable_init)

text \<open>
  Claim C4, at the failing run. The scheduler compares \<open>active_votes\<close> with the budget,
  but that counter is raised by the admission thread itself, at line 198, not by the
  scheduler when it starts the thread. After six voters have each queued a vote and the
  scheduler has made five passes while none of the five threads it started has reached
  line 198, five admission tasks are outstanding, which is the whole budget, and
  \<open>active_votes\<close> is still 0; the next pass therefore starts a sixth task, and six
  voters hold the in-progress mark at once.
\<close>

theorem budget_exceeded_by_sixth_pass:
  "reachable [8001, 8002] five_config
   \<and> max_concurrent_votes (srv five_config) = 5
   \<and> length (tasks five_config) = 5
   \<and> active_votes (srv five_config) = 0
   \<and> reachable [8001, 8002] (fire ESchedule five_config)
   \<and> length (tasks (fire ESchedule five_config)) = 6
   \<and> in_progress_votes (srv (fire ESchedule five_config)) = {1, 2, 3, 4, 5, 6}"
proof -
  have 1: "max_concurrent_votes (srv five_config) = 5" by code_simp
  have 2: "length (tasks five_config) = 5" by code_simp
  have 3: "active_votes (srv five_config) = 0" by code_simp
  have 4: "length (tasks (fire ESchedule five_config)) = 6" by code_simp
  have 5: "in_progress_votes (srv (fire ESchedule five_config)) = {1, 2, 3, 4, 5, 6}" by code_simp
  from five_reachable reachable_fire [OF five_reachable, of ESchedule] 1 2 3 4 5
  show ?thesis by blast
qed


end
